theory Spec2Isabelle
  imports Main "HOL-Library.Word"
begin

section \<open>Path helpers of the Go standard library\<close>

text \<open>
  The directory cache splits paths with \<^verbatim>\<open>strings.Split(s, "/")\<close> and builds cache keys
  with \<^verbatim>\<open>filepath.Join\<close>. Both belong to the Go standard library; they are written out
  here after their documented behaviour on a system whose separator is the slash.
  Go strings are byte sequences, as \<^typ>\<open>string\<close> is.
\<close>

definition Separator :: char where
  "Separator = CHR ''/''"

text \<open>\<^verbatim>\<open>strings.Split(s, "/")\<close>: the pieces between the separators; one more piece than
  there are separators, so the empty string gives one empty piece.\<close>

fun Split :: "string \<Rightarrow> string list" where
  "Split [] = [[]]"
| "Split (c # cs) =
     (if c = Separator then [] # Split cs
      else (case Split cs of [] \<Rightarrow> [[c]] | w # ws \<Rightarrow> (c # w) # ws))"

text \<open>\<^verbatim>\<open>strings.Join(elems, "/")\<close>.\<close>

fun strings_Join :: "string list \<Rightarrow> string" where
  "strings_Join [] = []"
| "strings_Join [e] = e"
| "strings_Join (e # es) = e @ Separator # strings_Join es"

text \<open>
  \<^verbatim>\<open>filepath.Clean\<close> works through the path elements from left to right: an empty
  element and \<^verbatim>\<open>.\<close> are dropped; \<^verbatim>\<open>..\<close> removes the element before it when that is an
  ordinary one, is dropped at the top of a rooted path, and is kept otherwise; every other
  element is kept. \<open>clean_elems\<close> keeps the elements written so far in reverse order.
\<close>

fun clean_elems :: "bool \<Rightarrow> string list \<Rightarrow> string list \<Rightarrow> string list" where
  "clean_elems rooted out [] = rev out"
| "clean_elems rooted out (e # es) =
     (if e = [] \<or> e = ''.'' then clean_elems rooted out es
      else if e = ''..'' then
        (case out of
           [] \<Rightarrow> if rooted then clean_elems rooted out es
                 else clean_elems rooted [''..''] es
         | t # ts \<Rightarrow> if t = ''..'' then clean_elems rooted (''..'' # out) es
                     else clean_elems rooted ts es)
      else clean_elems rooted (e # out) es)"

definition Clean :: "string \<Rightarrow> string" where
  "Clean path =
     (if path = [] then ''.''
      else
        (let rooted = (hd path = Separator);
             out = clean_elems rooted [] (Split path)
         in if rooted then Separator # strings_Join out
            else if out = [] then ''.''
            else strings_Join out))"

text \<open>\<^verbatim>\<open>filepath.Join\<close>: the elements from the first non-empty one on, joined with
  slashes and cleaned; the empty string when there is no non-empty element.\<close>

fun Join :: "string list \<Rightarrow> string" where
  "Join [] = []"
| "Join (e # es) = (if e = [] then Join es else Clean (strings_Join (e # es)))"

section \<open>The directory cache\<close>

text \<open>
  \<^verbatim>\<open>DirCache\<close>: the two Go maps are partial functions. The two mutexes guard concurrent
  use and have no effect on a single caller.
\<close>

record DirCache =
  cache :: "string \<rightharpoonup> string"
  invCache :: "string \<rightharpoonup> string"
  trueRootID :: string
  root :: string
  rootID :: string
  rootParentID :: string
  foundRoot :: bool

definition New :: "string \<Rightarrow> string \<Rightarrow> DirCache" where
  "New root' rootID' =
     \<lparr> cache = Map.empty, invCache = Map.empty, trueRootID = rootID', root = root',
       rootID = rootID', rootParentID = [], foundRoot = False \<rparr>"

text \<open>A lookup in a Go map gives the zero value and \<^verbatim>\<open>ok = false\<close> for a missing key.\<close>

definition Get :: "DirCache \<Rightarrow> string \<Rightarrow> string \<times> bool" where
  "Get dc path = (case cache dc path of None \<Rightarrow> ([], False) | Some i \<Rightarrow> (i, True))"

definition GetInv :: "DirCache \<Rightarrow> string \<Rightarrow> string \<times> bool" where
  "GetInv dc i = (case invCache dc i of None \<Rightarrow> ([], False) | Some p \<Rightarrow> (p, True))"

definition Put :: "DirCache \<Rightarrow> string \<Rightarrow> string \<Rightarrow> DirCache" where
  "Put dc path i = dc\<lparr> cache := (cache dc)(path \<mapsto> i), invCache := (invCache dc)(i \<mapsto> path) \<rparr>"

section \<open>The backend and the resolvers\<close>

text \<open>
  \<^verbatim>\<open>DirCacher\<close> is the interface the backend implements. A backend call may depend on
  and change the state of the remote store, so both operations take a backend state
  \<open>'b\<close> and return the next one with their Go results: \<^verbatim>\<open>(pathIDOut, found, err)\<close> and
  \<^verbatim>\<open>(newID, err)\<close>, with \<open>None\<close> for a \<^verbatim>\<open>nil\<close> error.
\<close>

record ('b, 'e) DirCacher =
  FindLeaf :: "'b \<Rightarrow> string \<Rightarrow> string \<Rightarrow> (string \<times> bool \<times> 'e option) \<times> 'b"
  CreateDir :: "'b \<Rightarrow> string \<Rightarrow> string \<Rightarrow> (string \<times> 'e option) \<times> 'b"

text \<open>The backend calls a resolver makes, in order, each with its arguments
  \<^verbatim>\<open>(pathID, leaf)\<close> and what the backend answered.\<close>

datatype 'e backend_call =
    FindLeafCall string string "string \<times> bool \<times> 'e option"
  | CreateDirCall string string "string \<times> 'e option"

text \<open>The errors the resolvers return, one constructor for each message of the source.\<close>

datatype 'e dc_error =
    FindRootNotCalled \<comment> \<open>\<^verbatim>\<open>internal error: FindRoot not called\<close>\<close>
  | CouldntFindDirectory string \<comment> \<open>\<^verbatim>\<open>couldn't find directory %q\<close>\<close>
  | CouldntFindParent string \<comment> \<open>\<^verbatim>\<open>couldn't find parent directory: %s\<close>\<close>
  | FailedToMakeDirectory string 'e \<comment> \<open>\<^verbatim>\<open>failed to make directory %q: %w\<close>\<close>
  | LastPathNotCached \<comment> \<open>\<^verbatim>\<open>internal error: couldn't find lastPath in the cache\<close>\<close>
  | BackendError 'e \<comment> \<open>an error of \<^verbatim>\<open>FindLeaf\<close>, returned as it is\<close>

type_synonym ('b, 'e) resolved =
  "('e dc_error + string) \<times> DirCache \<times> 'b \<times> 'e backend_call list"

text \<open>
  The first loop of \<^verbatim>\<open>_findRoot\<close>: \<open>i\<close> is the loop index, the list argument holds
  \<^verbatim>\<open>directories[i:]\<close>. It returns \<^verbatim>\<open>(parentID, foundAll)\<close> and stops at the first prefix
  that is not cached.
\<close>

fun findRoot_cached :: "DirCache \<Rightarrow> string list \<Rightarrow> nat \<Rightarrow> string list \<Rightarrow> string \<Rightarrow> string \<times> bool" where
  "findRoot_cached dc directories i [] parentID = (parentID, True)"
| "findRoot_cached dc directories i (d # ds) parentID =
     (if d = [] then findRoot_cached dc directories (Suc i) ds parentID
      else
        (let dirPath = Join (take (Suc i) directories);
             (dirID, ok) = Get dc dirPath
         in if ok then findRoot_cached dc directories (Suc i) ds dirID
            else (parentID, False)))"

text \<open>
  The second loop of \<^verbatim>\<open>_findRoot\<close>, which creates what is not cached. It returns
  \<^verbatim>\<open>lastPath\<close>, or the error that ended it.
\<close>

fun findRoot_create ::
  "('b, 'e) DirCacher \<Rightarrow> DirCache \<Rightarrow> 'b \<Rightarrow> string list \<Rightarrow> nat \<Rightarrow> string list \<Rightarrow> string \<Rightarrow>
   'e backend_call list \<Rightarrow> ('b, 'e) resolved" where
  "findRoot_create fs dc b directories i [] lastPath calls = (Inr lastPath, dc, b, calls)"
| "findRoot_create fs dc b directories i (d # ds) lastPath calls =
     (if d = [] then findRoot_create fs dc b directories (Suc i) ds lastPath calls
      else
        (let dirPath = Join (take (Suc i) directories) in
         if snd (Get dc dirPath) then findRoot_create fs dc b directories (Suc i) ds lastPath calls
         else
           (let leaf = d;
                parentPath = Join (take i directories);
                (parentID, ok) = Get dc parentPath
            in if \<not> ok then (Inl (CouldntFindParent parentPath), dc, b, calls)
               else
                 (let ((dirID, err), b') = CreateDir fs b parentID leaf;
                      calls' = calls @ [CreateDirCall parentID leaf (dirID, err)]
                  in case err of
                       Some e \<Rightarrow> (Inl (FailedToMakeDirectory dirPath e), dc, b', calls')
                     | None \<Rightarrow>
                         findRoot_create fs (Put dc dirPath dirID) b' directories (Suc i) ds
                           dirPath calls'))))"

definition findRoot :: "('b, 'e) DirCacher \<Rightarrow> DirCache \<Rightarrow> 'b \<Rightarrow> string \<Rightarrow> ('b, 'e) resolved" where
  "findRoot fs dc b root' =
     (if root' = [] then (Inr (rootID dc), dc, b, [])
      else
        (let directories = Split root';
             (parentID, foundAll) = findRoot_cached dc directories 0 directories (rootID dc)
         in if foundAll then (Inr parentID, dc, b, [])
            else
              (case findRoot_create fs dc b directories 0 directories [] [] of
                 (Inl e, dc', b', calls) \<Rightarrow> (Inl e, dc', b', calls)
               | (Inr lastPath, dc', b', calls) \<Rightarrow>
                   (let (i, ok) = Get dc' lastPath
                    in if \<not> ok then (Inl LastPathNotCached, dc', b', calls)
                       else (Inr i, dc', b', calls)))))"

definition FindRoot :: "('b, 'e) DirCacher \<Rightarrow> DirCache \<Rightarrow> 'b \<Rightarrow> ('b, 'e) resolved" where
  "FindRoot fs dc b =
     (if foundRoot dc then (Inr (rootID dc), dc, b, [])
      else
        (case findRoot fs dc b (root dc) of
           (Inl e, dc', b', calls) \<Rightarrow> (Inl e, dc', b', calls)
         | (Inr rootID', dc', b', calls) \<Rightarrow>
             (Inr rootID', dc'\<lparr> foundRoot := True, rootID := rootID' \<rparr>, b', calls)))"

text \<open>
  The first loop of \<^verbatim>\<open>FindDir\<close>: it joins every part onto \<^verbatim>\<open>dirPath\<close>, takes the ID of
  each cached prefix as \<^verbatim>\<open>parentID\<close> and appends every part whose prefix is not cached to
  \<^verbatim>\<open>partsToFind\<close>. It returns \<^verbatim>\<open>(partsToFind, parentID, dirPath)\<close>.
\<close>

fun findDir_scan ::
  "DirCache \<Rightarrow> string list \<Rightarrow> string list \<Rightarrow> string \<Rightarrow> string \<Rightarrow> string list \<times> string \<times> string" where
  "findDir_scan dc [] partsToFind parentID dirPath = (partsToFind, parentID, dirPath)"
| "findDir_scan dc (part # parts) partsToFind parentID dirPath =
     (let dirPath' = Join [dirPath, part];
          (dirID, ok) = Get dc dirPath'
      in if ok then findDir_scan dc parts partsToFind dirID dirPath'
         else findDir_scan dc parts (partsToFind @ [part]) parentID dirPath')"

text \<open>
  The second loop of \<^verbatim>\<open>FindDir\<close>: one \<^verbatim>\<open>FindLeaf\<close> for each part to find. It goes on
  from the \<^verbatim>\<open>dirPath\<close> the first loop ended with.
\<close>

fun findDir_lookup ::
  "('b, 'e) DirCacher \<Rightarrow> string \<Rightarrow> DirCache \<Rightarrow> 'b \<Rightarrow> string list \<Rightarrow> string \<Rightarrow> string \<Rightarrow>
   'e backend_call list \<Rightarrow> ('b, 'e) resolved" where
  "findDir_lookup fs path dc b [] parentID dirPath calls = (Inr parentID, dc, b, calls)"
| "findDir_lookup fs path dc b (part # partsToFind) parentID dirPath calls =
     (let ((dirID, found, err), b') = FindLeaf fs b parentID part;
          calls' = calls @ [FindLeafCall parentID part (dirID, found, err)]
      in case err of
           Some e \<Rightarrow> (Inl (BackendError e), dc, b', calls')
         | None \<Rightarrow>
             if \<not> found then (Inl (CouldntFindDirectory path), dc, b', calls')
             else
               (let dirPath' = Join [dirPath, part]
                in findDir_lookup fs path (Put dc dirPath' dirID) b' partsToFind dirID dirPath'
                     calls'))"

definition FindDir :: "('b, 'e) DirCacher \<Rightarrow> DirCache \<Rightarrow> 'b \<Rightarrow> string \<Rightarrow> ('b, 'e) resolved" where
  "FindDir fs dc b path =
     (if \<not> foundRoot dc then (Inl FindRootNotCalled, dc, b, [])
      else if path = [] then (Inr (rootID dc), dc, b, [])
      else
        (let parts = Split path;
             (partsToFind, parentID, dirPath) = findDir_scan dc parts [] (rootID dc) []
         in findDir_lookup fs path dc b partsToFind parentID dirPath []))"

text \<open>\<^verbatim>\<open>FindPath\<close> reads the inverse cache only.\<close>

datatype path_error =
    EmptyID \<comment> \<open>\<^verbatim>\<open>can't find path for empty ID\<close>\<close>
  | CouldntFindPath string \<comment> \<open>\<^verbatim>\<open>couldn't find path for ID %q\<close>\<close>

definition FindPath :: "DirCache \<Rightarrow> string \<Rightarrow> path_error + string" where
  "FindPath dc i =
     (if i = [] then Inl EmptyID
      else if i = rootID dc \<or> i = trueRootID dc then Inr (root dc)
      else (let (path, ok) = GetInv dc i in if ok then Inr path else Inl (CouldntFindPath i)))"

text \<open>
  A backend for concrete runs: the directory \<open>pathID\<close> holds one subdirectory, \<open>leaf\<close>,
  whose ID is \<open>i\<close>, and nothing else is found anywhere; every \<^verbatim>\<open>CreateDir\<close> succeeds.
\<close>

definition one_dir :: "string \<Rightarrow> string \<Rightarrow> string \<Rightarrow> (unit, unit) DirCacher" where
  "one_dir pathID leaf i =
     \<lparr> FindLeaf = (\<lambda>b p l. ((if p = pathID \<and> l = leaf then (i, True, None)
                               else ([], False, None)), b)),
       CreateDir = (\<lambda>b p l. ((p @ ''/'' @ l, None), b)) \<rparr>"

text \<open>
  What the second loop of \<open>FindDir\<close> has put in the cache, read off the backend calls it
  made: one \<open>Put\<close> for each \<^verbatim>\<open>FindLeaf\<close> that found its leaf, in order, under the key
  joined onto \<^verbatim>\<open>dirPath\<close> so far, and nothing after the first call that did not.
\<close>

fun put_found :: "DirCache \<Rightarrow> string \<Rightarrow> 'e backend_call list \<Rightarrow> DirCache" where
  "put_found dc dirPath [] = dc"
| "put_found dc dirPath (FindLeafCall pathID leaf (i, found, err) # calls) =
     (if err = None \<and> found
      then put_found (Put dc (Join [dirPath, leaf]) i) (Join [dirPath, leaf]) calls
      else dc)"
| "put_found dc dirPath (CreateDirCall pathID leaf answer # calls) = put_found dc dirPath calls"

text \<open>
  The directory paths \<^verbatim>\<open>FindDir\<close> is documented for (\<^verbatim>\<open>dir\<close>, \<^verbatim>\<open>dir/dir2\<close>): every
  piece between the slashes is a name, that is, not empty and neither \<^verbatim>\<open>.\<close> nor \<^verbatim>\<open>..\<close>.
\<close>

definition proper_name :: "string \<Rightarrow> bool" where
  "proper_name s \<longleftrightarrow> s \<noteq> [] \<and> s \<noteq> ''.'' \<and> s \<noteq> ''..''"

definition dir_path :: "string \<Rightarrow> bool" where
  "dir_path p \<longleftrightarrow> list_all proper_name (Split p)"

text \<open>A list of names, none of which holds a slash.\<close>

definition good :: "string list \<Rightarrow> bool" where
  "good xs \<longleftrightarrow> (\<forall>s\<in>set xs. proper_name s \<and> Separator \<notin> set s)"

section \<open>The pacer\<close>

text \<open>
  \<^verbatim>\<open>time.Duration\<close> is a signed 64-bit count of nanoseconds: a 64-bit word, compared
  through \<open>sint\<close>. The retry counters are Go \<^verbatim>\<open>int\<close>s that count loop rounds and
  stay far from the ends of their range, so they are integers here.
\<close>

type_synonym Duration = "64 word"

record 'e State =
  SleepTime :: Duration
  ConsecutiveRetries :: int
  LastError :: "'e option"

record DefaultCalculator =
  minSleep :: Duration
  maxSleep :: Duration
  decayConstant :: "64 word"
  burst :: int

text \<open>\<^verbatim>\<open>DefaultCalculator.Calculate\<close>. A Go shift by an unsigned count drops the bits
  pushed out at the top and gives 0 for a count of 64 or more, as \<open>push_bit\<close> does.\<close>

definition Calculate :: "DefaultCalculator \<Rightarrow> 'e State \<Rightarrow> Duration" where
  "Calculate c state' =
     (if ConsecutiveRetries state' = 0 then 0
      else if ConsecutiveRetries state' = 1 then minSleep c
      else
        (let sleepTime = push_bit (unat (decayConstant c)) (SleepTime state');
             sleepTime = (if sleepTime <s minSleep c then minSleep c else sleepTime);
             sleepTime = (if 0 <s maxSleep c \<and> maxSleep c <s sleepTime then maxSleep c
                          else sleepTime)
         in sleepTime))"

text \<open>
  The \<^verbatim>\<open>Calculator\<close> interface: the default calculator, which the options
  \<^verbatim>\<open>MinSleep\<close>, \<^verbatim>\<open>MaxSleep\<close>, \<^verbatim>\<open>DecayConstant\<close> and \<^verbatim>\<open>Burst\<close> recognise by its type, or
  any other function of the state.
\<close>

datatype 'e Calculator =
    Default DefaultCalculator
  | Custom "'e State \<Rightarrow> Duration"

fun Calculator_Calculate :: "'e Calculator \<Rightarrow> 'e State \<Rightarrow> Duration" where
  "Calculator_Calculate (Default c) state' = Calculate c state'"
| "Calculator_Calculate (Custom g) state' = g state'"

text \<open>
  \<^verbatim>\<open>Paced\<close>, the wrapped operation, returns \<^verbatim>\<open>(again, err)\<close>. What it does to the rest
  of the program is a state \<open>'s\<close> that it takes and returns.
\<close>

type_synonym ('e, 's) Paced = "'s \<Rightarrow> (bool \<times> 'e option) \<times> 's"

type_synonym ('e, 's) InvokerFunc = "int \<Rightarrow> int \<Rightarrow> ('e, 's) Paced \<Rightarrow> ('e, 's) Paced"

record ('e, 's) pacerOptions =
  maxConnections :: int
  retries :: int
  calculator :: "'e Calculator"
  invoker :: "('e, 's) InvokerFunc"

text \<open>
  \<^verbatim>\<open>Pacer\<close> embeds the options. Each of the two channels holds tokens that carry no
  data, so a channel is the number of tokens in it: a receive takes one and blocks on 0.
\<close>

record ('e, 's) Pacer = "('e, 's) pacerOptions" +
  pacer :: nat
  connTokens :: nat
  state :: "'e State"

definition DefaultInvoker :: "('e, 's) InvokerFunc" where
  "DefaultInvoker try tries paced s =
     (let ((again, err), s') = paced s
      in if try \<ge> tries then ((False, err), s') else ((again, err), s'))"

definition CalculatorOption :: "'e Calculator \<Rightarrow> ('e, 's) pacerOptions \<Rightarrow> ('e, 's) pacerOptions" where
  "CalculatorOption c p = p\<lparr> calculator := c \<rparr>"

definition RetriesOption :: "int \<Rightarrow> ('e, 's) pacerOptions \<Rightarrow> ('e, 's) pacerOptions" where
  "RetriesOption retries' p = p\<lparr> retries := retries' \<rparr>"

definition Burst :: "int \<Rightarrow> ('e, 's) pacerOptions \<Rightarrow> ('e, 's) pacerOptions" where
  "Burst t p =
     (case calculator p of
        Default c \<Rightarrow> p\<lparr> calculator := Default (c\<lparr> burst := t \<rparr>) \<rparr>
      | Custom g \<Rightarrow> p)"

definition MaxConnectionsOption :: "int \<Rightarrow> ('e, 's) pacerOptions \<Rightarrow> ('e, 's) pacerOptions" where
  "MaxConnectionsOption maxConnections' p = p\<lparr> maxConnections := maxConnections' \<rparr>"

definition InvokerOption :: "('e, 's) InvokerFunc \<Rightarrow> ('e, 's) pacerOptions \<Rightarrow> ('e, 's) pacerOptions" where
  "InvokerOption i p = p\<lparr> invoker := i \<rparr>"

definition MinSleep :: "Duration \<Rightarrow> ('e, 's) pacerOptions \<Rightarrow> ('e, 's) pacerOptions" where
  "MinSleep t p =
     (case calculator p of
        Default c \<Rightarrow> p\<lparr> calculator := Default (c\<lparr> minSleep := t \<rparr>) \<rparr>
      | Custom g \<Rightarrow> p)"

definition MaxSleep :: "Duration \<Rightarrow> ('e, 's) pacerOptions \<Rightarrow> ('e, 's) pacerOptions" where
  "MaxSleep t p =
     (case calculator p of
        Default c \<Rightarrow> p\<lparr> calculator := Default (c\<lparr> maxSleep := t \<rparr>) \<rparr>
      | Custom g \<Rightarrow> p)"

definition DecayConstant :: "64 word \<Rightarrow> ('e, 's) pacerOptions \<Rightarrow> ('e, 's) pacerOptions" where
  "DecayConstant t p =
     (case calculator p of
        Default c \<Rightarrow> p\<lparr> calculator := Default (c\<lparr> decayConstant := t \<rparr>) \<rparr>
      | Custom g \<Rightarrow> p)"

text \<open>
  \<^verbatim>\<open>New\<close> of the pacer package: the defaults, then the options in order, then the two
  channels, filled. \<^verbatim>\<open>make(chan struct{}, n)\<close> panics for a negative \<open>n\<close>: the result is
  \<open>None\<close> then.
\<close>

definition pacer_New ::
  "(('e, 's) pacerOptions \<Rightarrow> ('e, 's) pacerOptions) list \<Rightarrow> ('e, 's) Pacer option" where
  "pacer_New options =
     (let opts = fold (\<lambda>option' p. option' p) options
           \<lparr> maxConnections = 8, retries = 10,
             calculator = Default \<lparr> minSleep = 0, maxSleep = 0, decayConstant = 0, burst = 0 \<rparr>,
             invoker = DefaultInvoker \<rparr>
      in if maxConnections opts < 0 then None
         else Some
           \<lparr> maxConnections = maxConnections opts, retries = retries opts,
             calculator = calculator opts, invoker = invoker opts,
             pacer = 1, connTokens = nat (maxConnections opts),
             state = \<lparr> SleepTime = 0, ConsecutiveRetries = 0, LastError = None \<rparr> \<rparr>)"

text \<open>
  The loop of \<^verbatim>\<open>Pacer.Call\<close> for one caller, from the head of round \<open>try\<close> on;
  \<open>consecutiveRetries\<close> and \<open>err\<close> are the function's local variables. The caller
  takes the pacer token and a connection token, runs the invoker, and gives the connection
  token back; it gives the pacer token back when it returns, or after the sleep. A
  receive from a channel with no token never returns when no other caller is there to
  send one: the result is \<open>None\<close>. The mutex is free whenever a single caller locks it,
  and \<^verbatim>\<open>time.Sleep\<close> changes nothing.
\<close>

function Call_loop ::
  "('e, 's) Pacer \<Rightarrow> ('e, 's) Paced \<Rightarrow> int \<Rightarrow> int \<Rightarrow> 'e option \<Rightarrow> 's \<Rightarrow>
   ('e option \<times> ('e, 's) Pacer \<times> 's) option" where
  "Call_loop p f try consecutiveRetries err s =
     (if try \<le> retries p then
        (if pacer p = 0 then None
         else
           (let p1 = p\<lparr> pacer := pacer p - 1 \<rparr> in
            if connTokens p1 = 0 then None
            else
              (let p2 = p1\<lparr> connTokens := connTokens p1 - 1 \<rparr>;
                   ((again, err'), s') = invoker p2 consecutiveRetries (retries p2) f s;
                   p3 = p2\<lparr> connTokens := connTokens p2 + 1 \<rparr>
               in if \<not> again \<or> try \<ge> retries p3 then
                    Some (err',
                          p3\<lparr> pacer := pacer p3 + 1,
                              state := (state p3)\<lparr> ConsecutiveRetries := 0, LastError := None \<rparr> \<rparr>,
                          s')
                  else
                    (let state1 = (state p3)\<lparr> ConsecutiveRetries := ConsecutiveRetries (state p3) + 1,
                                               LastError := err' \<rparr>;
                         sleepTime = Calculator_Calculate (calculator p3) state1;
                         p4 = p3\<lparr> state := state1\<lparr> SleepTime := sleepTime \<rparr> \<rparr>;
                         consecutiveRetries' = (if again then consecutiveRetries + 1 else 0);
                         p5 = p4\<lparr> pacer := pacer p4 + 1 \<rparr>
                     in if \<not> again then Some (err', p5, s')
                        else Call_loop p5 f (try + 1) consecutiveRetries' err' s'))))
      else Some (err, p, s))"
  by pat_completeness auto
termination
  by (relation "measure (\<lambda>(p, f, try, consecutiveRetries, err, s). nat (retries p + 1 - try))") auto

declare Call_loop.simps [simp del]

definition Call :: "('e, 's) Pacer \<Rightarrow> ('e, 's) Paced \<Rightarrow> 's \<Rightarrow> ('e option \<times> ('e, 's) Pacer \<times> 's) option" where
  "Call p f s = Call_loop p f 0 0 None s"

text \<open>
  An instrumented operation: it keeps, beside the state of \<open>f\<close>, the list of what each
  invocation of \<open>f\<close> returned, in order.
\<close>

definition counted :: "('e, 's) Paced \<Rightarrow> ('e, 's \<times> (bool \<times> 'e option) list) Paced" where
  "counted f = (\<lambda>(s, log). let (r, s') = f s in (r, (s', log @ [r])))"

text \<open>What one round of \<open>Call_loop\<close> leaves of the pacer: \<open>done_state\<close> when the call
  returns, \<open>retry_state\<close> when it sleeps and goes round again. The tokens are back in
  both.\<close>

definition done_state :: "('e, 's) Pacer \<Rightarrow> ('e, 's) Pacer" where
  "done_state p = p\<lparr> state := (state p)\<lparr> ConsecutiveRetries := 0, LastError := None \<rparr> \<rparr>"

definition retry_state :: "('e, 's) Pacer \<Rightarrow> 'e option \<Rightarrow> ('e, 's) Pacer" where
  "retry_state p err' =
     p\<lparr> state := (state p)\<lparr> ConsecutiveRetries := ConsecutiveRetries (state p) + 1, LastError := err',
          SleepTime := Calculator_Calculate (calculator p)
            ((state p)\<lparr> ConsecutiveRetries := ConsecutiveRetries (state p) + 1, LastError := err' \<rparr>) \<rparr> \<rparr>"

text \<open>Two operations for concrete runs, whose state counts their invocations: one asks
  for another attempt every time, with the count as its error; one succeeds at once.\<close>

definition always_again :: "(nat, nat) Paced" where
  "always_again n = ((True, Some n), Suc n)"

definition succeeds :: "(nat, nat) Paced" where
  "succeeds n = ((False, None), Suc n)"

section \<open>The pacer of package fs, which takes a context\<close>

text \<open>
  \<^verbatim>\<open>fs.Pacer\<close> and \<^verbatim>\<open>fs.PacerState\<close>. Their fields carry the prefix \<open>fs_\<close> where the
  name is taken by the pacer package above.
\<close>

record 'e PacerState =
  fs_ConsecutiveRetries :: int
  fs_LastError :: "'e option"

record 'e fs_Pacer =
  calculateDelay :: "'e PacerState \<Rightarrow> Duration"
  fs_maxConnections :: int
  fs_connTokens :: nat
  fs_retries :: int

definition NewPacer :: "('e PacerState \<Rightarrow> Duration) \<Rightarrow> 'e fs_Pacer" where
  "NewPacer calculateDelay' =
     \<lparr> calculateDelay = calculateDelay', fs_maxConnections = 1, fs_connTokens = 1,
       fs_retries = 3 \<rparr>"

text \<open>
  \<^verbatim>\<open>Call\<close> waits in two \<^verbatim>\<open>select\<close> statements, each with the case \<^verbatim>\<open><-ctx.Done()\<close>
  beside the case it waits for (a connection token, the timer of the delay). Which case
  fires is up to the other goroutines and the clock: the context of the model says, for
  each round \<open>try\<close>, whether the wait ends by \<^verbatim>\<open>ctx.Done()\<close>, and holds the error
  \<^verbatim>\<open>ctx.Err()\<close> then returns. When the wait for the token ends the other way, the caller
  has a token, and it sends it back right after the function has returned.
\<close>

record 'e Context =
  Err :: 'e
  done_before_token :: "int \<Rightarrow> bool"
  done_before_timer :: "int \<Rightarrow> Duration \<Rightarrow> bool"

text \<open>The wrapped function of this pacer returns an error only.\<close>

type_synonym ('e, 's) fallible = "'s \<Rightarrow> 'e option \<times> 's"

text \<open>The loop of \<^verbatim>\<open>fs.Pacer.Call\<close> from the head of round \<open>try\<close> on; \<open>err\<close> is the
  function's local variable.\<close>

function fs_Call_loop ::
  "'e fs_Pacer \<Rightarrow> 'e Context \<Rightarrow> ('e, 's) fallible \<Rightarrow> int \<Rightarrow> 'e option \<Rightarrow> 's \<Rightarrow> 'e option \<times> 's" where
  "fs_Call_loop p ctx fn try err s =
     (if try \<le> fs_retries p then
        (if done_before_token ctx try then (Some (Err ctx), s)
         else
           (let (err', s') = fn s in
            if err' = None then (err', s')
            else if try \<ge> fs_retries p then (err', s')
            else
              (let delay = calculateDelay p
                     \<lparr> fs_ConsecutiveRetries = try, fs_LastError = err' \<rparr>
               in if done_before_timer ctx try delay then (Some (Err ctx), s')
                  else fs_Call_loop p ctx fn (try + 1) err' s')))
      else (err, s))"
  by pat_completeness auto
termination
  by (relation "measure (\<lambda>(p, ctx, fn, try, err, s). nat (fs_retries p + 1 - try))") auto

declare fs_Call_loop.simps [simp del]

definition fs_Call :: "'e fs_Pacer \<Rightarrow> 'e Context \<Rightarrow> ('e, 's) fallible \<Rightarrow> 's \<Rightarrow> 'e option \<times> 's" where
  "fs_Call p ctx fn s = fs_Call_loop p ctx fn 0 None s"

text \<open>The instrumented function: it keeps the list of what each invocation returned.\<close>

definition counted_fn :: "('e, 's) fallible \<Rightarrow> ('e, 's \<times> 'e option list) fallible" where
  "counted_fn fn = (\<lambda>(s, log). let (e, s') = fn s in (e, (s', log @ [e])))"

text \<open>A function for concrete runs that fails every time, and two contexts: one is done
  while round \<open>k\<close> waits for its token, the other while round \<open>k\<close> sleeps.\<close>

definition always_fails :: "(string, nat) fallible" where
  "always_fails n = (Some ''failed'', Suc n)"

definition cancelled_at_token :: "int \<Rightarrow> string Context" where
  "cancelled_at_token k =
     \<lparr> Err = ''context canceled'', done_before_token = (\<lambda>try. try = k),
       done_before_timer = (\<lambda>try delay. False) \<rparr>"

definition cancelled_at_timer :: "int \<Rightarrow> string Context" where
  "cancelled_at_timer k =
     \<lparr> Err = ''context canceled'', done_before_token = (\<lambda>try. False),
       done_before_timer = (\<lambda>try delay. try = k) \<rparr>"

section \<open>Several goroutines in \<open>Call\<close>\<close>

text \<open>
  Where a goroutine stands in \<^verbatim>\<open>Pacer.Call\<close>, named after the statement it is about to
  run: the lock at the head of the loop (\<open>LoopHead\<close>), the receive from \<^verbatim>\<open>p.pacer\<close>, the
  receive from \<^verbatim>\<open>p.connTokens\<close>, the return of the invoker (\<open>Invoking\<close>: the call phase,
  the wrapped operation is running), the send to \<^verbatim>\<open>p.connTokens\<close>, the test
  \<^verbatim>\<open>!again || try >= p.retries\<close>, then either the send to \<^verbatim>\<open>p.pacer\<close> and the unlock
  before \<^verbatim>\<open>return\<close>, or the unlock before the sleep, the sleep, the second lock, the send
  to \<^verbatim>\<open>p.pacer\<close> and the second unlock, after which the caller returns or goes to the
  head of the loop with \<^verbatim>\<open>try\<close> increased. The flag is the local variable \<^verbatim>\<open>again\<close>.
\<close>

datatype pc =
    NotCalling
  | LoopHead
  | RecvPacer
  | RecvConn
  | Invoking
  | SendConn bool
  | Decide bool
  | UnlockSleep bool
  | SendPacerReturn
  | UnlockReturn
  | Sleeping bool
  | Relock bool
  | SendPacer bool
  | Unlock bool

text \<open>
  What the goroutines share, and where each of them is: who holds the mutex \<^verbatim>\<open>p.mu\<close>,
  the number of tokens in each of the two channels, and for every goroutine its place in
  \<open>Call\<close> and its local variable \<^verbatim>\<open>try\<close>.
\<close>

record 'g callers =
  mu :: "'g option"
  pacer_chan :: nat
  connTokens_chan :: nat
  at :: "'g \<Rightarrow> pc"
  try_of :: "'g \<Rightarrow> int"

text \<open>
  One statement of goroutine \<open>g\<close>. \<open>K\<close> is the capacity of \<^verbatim>\<open>p.connTokens\<close> and
  \<open>retries'\<close> is \<^verbatim>\<open>p.retries\<close>. The result is \<open>None\<close> when the statement blocks: a lock
  of the held mutex, a receive from an empty channel, a send to a full one. What the
  invoker returns as \<^verbatim>\<open>again\<close> is not decided here: it is the flag \<open>again\<close> given with
  the step. The updates of \<^verbatim>\<open>p.state\<close> and the errors do not bear on the order of the
  statements and are left out.
\<close>

definition step :: "nat \<Rightarrow> int \<Rightarrow> 'g \<Rightarrow> bool \<Rightarrow> 'g callers \<Rightarrow> 'g callers option" where
  "step K retries' g again c =
     (case at c g of
        NotCalling \<Rightarrow> Some (c\<lparr> at := (at c)(g := LoopHead), try_of := (try_of c)(g := 0) \<rparr>)
      | LoopHead \<Rightarrow>
          if try_of c g \<le> retries' then
            (if mu c = None then Some (c\<lparr> mu := Some g, at := (at c)(g := RecvPacer) \<rparr>) else None)
          else Some (c\<lparr> at := (at c)(g := NotCalling) \<rparr>)
      | RecvPacer \<Rightarrow>
          if pacer_chan c = 0 then None
          else Some (c\<lparr> pacer_chan := pacer_chan c - 1, at := (at c)(g := RecvConn) \<rparr>)
      | RecvConn \<Rightarrow>
          if connTokens_chan c = 0 then None
          else Some (c\<lparr> connTokens_chan := connTokens_chan c - 1, at := (at c)(g := Invoking) \<rparr>)
      | Invoking \<Rightarrow> Some (c\<lparr> at := (at c)(g := SendConn again) \<rparr>)
      | SendConn a \<Rightarrow>
          if connTokens_chan c \<ge> K then None
          else Some (c\<lparr> connTokens_chan := connTokens_chan c + 1, at := (at c)(g := Decide a) \<rparr>)
      | Decide a \<Rightarrow>
          if \<not> a \<or> try_of c g \<ge> retries' then Some (c\<lparr> at := (at c)(g := SendPacerReturn) \<rparr>)
          else Some (c\<lparr> at := (at c)(g := UnlockSleep a) \<rparr>)
      | UnlockSleep a \<Rightarrow> Some (c\<lparr> mu := None, at := (at c)(g := Sleeping a) \<rparr>)
      | SendPacerReturn \<Rightarrow>
          if pacer_chan c \<ge> 1 then None
          else Some (c\<lparr> pacer_chan := pacer_chan c + 1, at := (at c)(g := UnlockReturn) \<rparr>)
      | UnlockReturn \<Rightarrow> Some (c\<lparr> mu := None, at := (at c)(g := NotCalling) \<rparr>)
      | Sleeping a \<Rightarrow> Some (c\<lparr> at := (at c)(g := Relock a) \<rparr>)
      | Relock a \<Rightarrow>
          if mu c = None then Some (c\<lparr> mu := Some g, at := (at c)(g := SendPacer a) \<rparr>) else None
      | SendPacer a \<Rightarrow>
          if pacer_chan c \<ge> 1 then None
          else Some (c\<lparr> pacer_chan := pacer_chan c + 1, at := (at c)(g := Unlock a) \<rparr>)
      | Unlock a \<Rightarrow>
          if \<not> a then Some (c\<lparr> mu := None, at := (at c)(g := NotCalling) \<rparr>)
          else Some (c\<lparr> mu := None, at := (at c)(g := LoopHead),
                       try_of := (try_of c)(g := try_of c g + 1) \<rparr>))"

text \<open>A schedule says which goroutine runs its next statement, and with what answer of
  the invoker; \<open>run\<close> is \<open>None\<close> for a schedule that asks a blocked goroutine to move.\<close>

fun run :: "nat \<Rightarrow> int \<Rightarrow> ('g \<times> bool) list \<Rightarrow> 'g callers \<Rightarrow> 'g callers option" where
  "run K retries' [] c = Some c"
| "run K retries' ((g, again) # schedule) c =
     (case step K retries' g again c of
        None \<Rightarrow> None
      | Some c' \<Rightarrow> run K retries' schedule c')"

text \<open>The pacer as \<^verbatim>\<open>New\<close> makes it, with \<open>K\<close> connection tokens, before any call.\<close>

definition idle :: "nat \<Rightarrow> 'g callers" where
  "idle K = \<lparr> mu = None, pacer_chan = 1, connTokens_chan = K, at = (\<lambda>g. NotCalling),
              try_of = (\<lambda>g. 0) \<rparr>"

text \<open>The places at which a goroutine holds the mutex, and those at which it holds a
  connection token.\<close>

fun holds_mu :: "pc \<Rightarrow> bool" where
  "holds_mu NotCalling = False"
| "holds_mu LoopHead = False"
| "holds_mu (Sleeping a) = False"
| "holds_mu (Relock a) = False"
| "holds_mu _ = True"

fun holds_conn :: "pc \<Rightarrow> bool" where
  "holds_conn Invoking = True"
| "holds_conn (SendConn a) = True"
| "holds_conn _ = False"

text \<open>What holds of the callers at all times: the mutex is held by whoever stands at a
  place that holds it, and the connection tokens in the channel and in the callers' hands
  are \<open>K\<close>.\<close>

definition call_inv :: "nat \<Rightarrow> 'g callers \<Rightarrow> bool" where
  "call_inv K c \<longleftrightarrow>
     (\<forall>g. holds_mu (at c g) \<longrightarrow> mu c = Some g) \<and>
     (\<forall>g. holds_conn (at c g) \<longrightarrow> connTokens_chan c + 1 = K) \<and>
     ((\<forall>g. \<not> holds_conn (at c g)) \<longrightarrow> connTokens_chan c = K)"

section \<open>Properties of the cache\<close>

text \<open>
  Claim C8. \<open>Put\<close> overwrites and never removes: after \<open>Put p id1\<close> and then
  \<open>Put p id2\<close>, \<open>Get p\<close> gives \<open>(id2, true)\<close>, and \<open>GetInv id1\<close> still gives
  \<open>(p, true)\<close>: the inverse entry of the replaced ID stays.
\<close>

theorem Put_overwrite_keeps_old_inverse:
  "Get (Put (Put dc p id1) p id2) p = (id2, True) \<and>
   GetInv (Put (Put dc p id1) p id2) id1 = (p, True)"
  by (simp add: Get_def GetInv_def Put_def)

section \<open>Splitting and joining directory paths\<close>

lemma Split_not_Nil [simp]: "Split p \<noteq> []"
  by (induction p) (auto split: list.splits)

lemma Split_no_Separator: "s \<in> set (Split p) \<Longrightarrow> Separator \<notin> set s"
  by (induction p arbitrary: s) (auto split: list.splits if_splits)

lemma strings_Join_Split: "strings_Join (Split p) = p"
proof (induction p)
  case Nil
  show ?case by simp
next
  case (Cons c cs)
  obtain w ws where sp: "Split cs = w # ws"
    by (cases "Split cs") auto
  with Cons show ?case
    by (cases ws) auto
qed

lemma Split_append_sep:
  "Separator \<notin> set e \<Longrightarrow> Split (e @ Separator # r) = e # Split r"
  by (induction e) auto

lemma Split_single: "Separator \<notin> set e \<Longrightarrow> Split e = [e]"
  by (induction e) auto

lemma Split_strings_Join:
  "xs \<noteq> [] \<Longrightarrow> \<forall>s\<in>set xs. Separator \<notin> set s \<Longrightarrow> Split (strings_Join xs) = xs"
  by (induction xs rule: strings_Join.induct) (auto simp: Split_append_sep Split_single)

lemma strings_Join_snoc:
  "xs \<noteq> [] \<Longrightarrow> strings_Join (xs @ [s]) = strings_Join xs @ Separator # s"
  by (induction xs rule: strings_Join.induct) auto

lemma clean_elems_proper:
  "\<forall>s\<in>set xs. proper_name s \<Longrightarrow> clean_elems r out xs = rev out @ xs"
  by (induction xs arbitrary: out) (auto simp: proper_name_def)

lemma strings_Join_hd:
  "xs \<noteq> [] \<Longrightarrow> hd xs \<noteq> [] \<Longrightarrow> strings_Join xs \<noteq> [] \<and> hd (strings_Join xs) = hd (hd xs)"
  by (induction xs rule: strings_Join.induct) auto

lemma Clean_good:
  assumes "xs \<noteq> []" "good xs"
  shows "Clean (strings_Join xs) = strings_Join xs"
proof -
  from assms have h: "hd xs \<noteq> []" "Separator \<notin> set (hd xs)"
    by (cases xs; auto simp: good_def proper_name_def)+
  with assms(1) have ne: "strings_Join xs \<noteq> []" and hd: "hd (strings_Join xs) = hd (hd xs)"
    using strings_Join_hd by blast+
  from h have "hd (hd xs) \<noteq> Separator"
    by (cases "hd xs") auto
  moreover have "Split (strings_Join xs) = xs"
    using assms by (simp add: Split_strings_Join good_def)
  moreover have "clean_elems False [] xs = xs"
    using assms(2) by (simp add: clean_elems_proper good_def)
  ultimately show ?thesis
    using ne hd assms(1) by (simp add: Clean_def Let_def)
qed

lemma Join_step:
  assumes "good (ys @ [part])"
  shows "Join [strings_Join ys, part] = strings_Join (ys @ [part])"
proof (cases "ys = []")
  case True
  with assms have "good [part]" by simp
  then have "Clean (strings_Join [part]) = strings_Join [part]"
    by (intro Clean_good) auto
  moreover from \<open>good [part]\<close> have "part \<noteq> []"
    by (simp add: good_def proper_name_def)
  ultimately show ?thesis using True by simp
next
  case False
  from assms have "good ys" by (simp add: good_def)
  with False have "hd ys \<noteq> []"
    by (cases ys) (auto simp: good_def proper_name_def)
  with False have ne: "strings_Join ys \<noteq> []"
    using strings_Join_hd by blast
  have "strings_Join [strings_Join ys, part] = strings_Join (ys @ [part])"
    using False by (simp add: strings_Join_snoc)
  moreover have "Clean (strings_Join (ys @ [part])) = strings_Join (ys @ [part])"
    using assms by (intro Clean_good) auto
  ultimately show ?thesis using ne by simp
qed

lemma strings_Join_inj:
  assumes "good xs" "good ys" "xs \<noteq> []" "ys \<noteq> []" "strings_Join xs = strings_Join ys"
  shows "xs = ys"
proof -
  have "xs = Split (strings_Join xs)"
    using assms(1,3) by (simp add: Split_strings_Join good_def)
  also have "\<dots> = Split (strings_Join ys)"
    by (simp only: assms(5))
  also have "\<dots> = ys"
    using assms(2,4) by (simp add: Split_strings_Join good_def)
  finally show ?thesis .
qed

lemma good_Split: "dir_path p \<Longrightarrow> good (Split p)"
  by (auto simp: dir_path_def good_def list_all_iff Split_no_Separator)

lemma Put_cache_other: "k \<noteq> path \<Longrightarrow> cache (Put dc path i) k = cache dc k"
  by (simp add: Put_def)

lemma Put_foundRoot [simp]: "foundRoot (Put dc path i) = foundRoot dc"
  by (simp add: Put_def)

lemma Put_rootID [simp]: "rootID (Put dc path i) = rootID dc"
  by (simp add: Put_def)

text \<open>The first loop of \<open>FindDir\<close> on a directory path: the keys it looks up are the
  prefixes of the path, and it ends with the whole path in \<^verbatim>\<open>dirPath\<close>.\<close>

lemma findDir_scan_good:
  assumes "good (ys @ parts)"
    and "findDir_scan dc parts ptf pid (strings_Join ys) = (ptf', pid', dp')"
  shows "dp' = strings_Join (ys @ parts) \<and> set ptf' \<subseteq> set ptf \<union> set parts \<and>
         (parts \<noteq> [] \<and> cache dc (strings_Join (ys @ parts)) = None \<longrightarrow> ptf' \<noteq> []) \<and>
         (ptf \<noteq> [] \<longrightarrow> ptf' \<noteq> [])"
  using assms
proof (induction parts arbitrary: ys ptf pid)
  case Nil
  then show ?case by simp
next
  case (Cons part parts)
  from Cons.prems(1) have g1: "good (ys @ [part])" and g2: "good ((ys @ [part]) @ parts)"
    by (simp_all add: good_def)
  have j: "Join [strings_Join ys, part] = strings_Join (ys @ [part])"
    using g1 by (rule Join_step)
  show ?case
  proof (cases "cache dc (strings_Join (ys @ [part]))")
    case None
    with Cons.prems(2) j
    have "findDir_scan dc parts (ptf @ [part]) pid (strings_Join (ys @ [part])) = (ptf', pid', dp')"
      by (simp add: Get_def)
    from Cons.IH [OF g2 this] show ?thesis by auto
  next
    case (Some d)
    with Cons.prems(2) j
    have run: "findDir_scan dc parts ptf d (strings_Join (ys @ [part])) = (ptf', pid', dp')"
      by (simp add: Get_def)
    from Cons.IH [OF g2 run] Some show ?thesis by (cases parts) auto
  qed
qed

text \<open>The second loop of \<open>FindDir\<close>: it only adds calls, and every key it puts is
  longer than the path it started from.\<close>

lemma findDir_lookup_calls:
  "findDir_lookup fs path dc b ptf pid dp calls = (r, dc', b', calls') \<Longrightarrow>
   \<exists>new. calls' = calls @ new \<and> (ptf \<noteq> [] \<longrightarrow> (\<exists>p l a rest. new = FindLeafCall p l a # rest))"
proof (induction ptf arbitrary: dc b pid dp calls)
  case Nil
  then show ?case by simp
next
  case (Cons part ptf)
  obtain i found err b1 where fl: "FindLeaf fs b pid part = ((i, found, err), b1)"
    by (metis prod_cases3 surj_pair)
  show ?case
  proof (cases "err = None \<and> found")
    case True
    with Cons.prems fl obtain dp1 where
      "findDir_lookup fs path (Put dc dp1 i) b1 ptf i dp1 (calls @ [FindLeafCall pid part (i, found, err)])
         = (r, dc', b', calls')"
      by (auto simp: Let_def)
    from Cons.IH [OF this] show ?thesis by auto
  next
    case False
    with Cons.prems fl show ?thesis
      by (auto simp: Let_def split: option.splits if_splits)
  qed
qed

lemma findDir_lookup_keeps_short_keys:
  assumes "good ys" "good ptf" "good zs" "zs \<noteq> []" "length zs \<le> length ys"
    and "findDir_lookup fs path dc b ptf pid (strings_Join ys) calls = (r, dc', b', calls')"
  shows "cache dc' (strings_Join zs) = cache dc (strings_Join zs) \<and> foundRoot dc' = foundRoot dc"
  using assms
proof (induction ptf arbitrary: dc b pid ys calls)
  case Nil
  then show ?case by simp
next
  case (Cons part ptf)
  obtain i found err b1 where fl: "FindLeaf fs b pid part = ((i, found, err), b1)"
    by (metis prod_cases3 surj_pair)
  from Cons.prems have g: "good (ys @ [part])" "good ptf"
    by (simp_all add: good_def)
  have j: "Join [strings_Join ys, part] = strings_Join (ys @ [part])"
    using g(1) by (rule Join_step)
  show ?case
  proof (cases "err = None \<and> found")
    case True
    with Cons.prems(6) fl j have run:
      "findDir_lookup fs path (Put dc (strings_Join (ys @ [part])) i) b1 ptf i
         (strings_Join (ys @ [part])) (calls @ [FindLeafCall pid part (i, found, err)])
         = (r, dc', b', calls')"
      by (auto simp: Let_def)
    have len: "length zs \<le> length (ys @ [part])" using Cons.prems(5) by simp
    have "strings_Join zs \<noteq> strings_Join (ys @ [part])"
    proof
      assume "strings_Join zs = strings_Join (ys @ [part])"
      then have "zs = ys @ [part]"
        using strings_Join_inj [OF Cons.prems(3) g(1) Cons.prems(4)] by simp
      with Cons.prems(5) show False by simp
    qed
    then have "cache (Put dc (strings_Join (ys @ [part])) i) (strings_Join zs) = cache dc (strings_Join zs)"
      by (rule Put_cache_other)
    with Cons.IH [OF g(1) g(2) Cons.prems(3) Cons.prems(4) len run] show ?thesis by simp
  next
    case False
    with Cons.prems(6) fl show ?thesis
      by (auto simp: Let_def split: option.splits if_splits)
  qed
qed

section \<open>Properties of the resolvers\<close>

lemmas resolver_defs =
  Let_def FindRoot_def findRoot_def FindDir_def New_def Get_def Put_def Clean_def
  Separator_def one_dir_def

text \<open>With an empty root, \<open>FindRoot\<close> sets the latch and calls nothing.\<close>

lemma FindRoot_empty_root:
  "FindRoot fs (New [] r) b = (Inr r, (New [] r)\<lparr> foundRoot := True \<rparr>, b, [])"
  by (simp add: resolver_defs)

text \<open>
  Claim C1. On a cache made by \<open>New\<close> with the root \<^verbatim>\<open>a/b/c\<close>, \<open>FindRoot\<close> makes no
  \<^verbatim>\<open>CreateDir\<close> call at all: the parent path of the first segment is the empty path,
  which \<open>New\<close> does not put in the cache, so the second loop of \<^verbatim>\<open>_findRoot\<close> returns
  \<^verbatim>\<open>couldn't find parent directory\<close> before it reaches the backend. This holds for every
  backend, true root ID and backend state.
\<close>

theorem FindRoot_fresh_cache_fails:
  "FindRoot fs (New ''a/b/c'' r) b = (Inl (CouldntFindParent []), New ''a/b/c'' r, b, [])"
  by (simp add: resolver_defs)

text \<open>
  Once the empty path is cached with the true root ID, the same call creates the three
  directories as described: each under the ID the call before returned.
\<close>

lemma FindRoot_seeded_cache_creates:
  "snd (snd (snd (FindRoot (one_dir [] [] []) (Put (New ''a/b/c'' ''r'') [] ''r'') ()))) =
     [CreateDirCall ''r'' ''a'' (''r/a'', None),
      CreateDirCall ''r/a'' ''b'' (''r/a/b'', None),
      CreateDirCall ''r/a/b'' ''c'' (''r/a/b/c'', None)] \<and>
   fst (FindRoot (one_dir [] [] []) (Put (New ''a/b/c'' ''r'') [] ''r'') ()) = Inr ''r/a/b/c''"
  by (simp add: resolver_defs)

text \<open>
  Claim C4. In the cache that holds \<^verbatim>\<open>x/y\<close> and not \<^verbatim>\<open>x\<close>, \<open>FindDir\<close> of \<^verbatim>\<open>x/y\<close>
  does call the backend: the first loop puts \<^verbatim>\<open>x\<close> in \<^verbatim>\<open>partsToFind\<close> and takes the ID
  of \<^verbatim>\<open>x/y\<close> as parent, and the second loop looks \<^verbatim>\<open>x\<close> up under that ID.
\<close>

theorem FindDir_cached_path_uncached_prefix:
  "snd (snd (snd (FindDir fs (Put (fst (snd (FindRoot fs (New [] r) b))) ''x/y'' i) b ''x/y''))) =
     [FindLeafCall i ''x'' (fst (FindLeaf fs b i ''x''))]"
  by (simp add: resolver_defs split: prod.splits option.splits)

text \<open>
  Claim C7. While \<open>foundRoot\<close> is unset, which is so until a \<open>FindRoot\<close> has returned
  without error, \<open>FindDir\<close> returns \<^verbatim>\<open>internal error: FindRoot not called\<close> for
  every path, and leaves the cache and the backend as they are, with no backend call.
\<close>

theorem FindDir_before_FindRoot:
  "\<not> foundRoot dc \<Longrightarrow> FindDir fs dc b path = (Inl FindRootNotCalled, dc, b, [])"
  by (simp add: FindDir_def)

theorem FindDir_before_FindRoot_witness:
  "\<not> foundRoot (New ''a'' ''r'') \<and>
   FindDir (one_dir ''r'' ''a'' ''1'') (New ''a'' ''r'') () [] =
     (Inl FindRootNotCalled, New ''a'' ''r'', (), []) \<and>
   FindDir (one_dir ''r'' ''a'' ''1'') (New ''a'' ''r'') () ''a'' =
     (Inl FindRootNotCalled, New ''a'' ''r'', (), [])"
  using FindDir_before_FindRoot [of "New ''a'' ''r''" "one_dir ''r'' ''a'' ''1''" "()" "[]"]
    FindDir_before_FindRoot [of "New ''a'' ''r''" "one_dir ''r'' ''a'' ''1''" "()" "''a''"]
  by (simp add: New_def)

text \<open>The second loop of \<open>FindDir\<close> when the last answer of the backend is
  \<^verbatim>\<open>found = false\<close> with no error.\<close>

lemma findDir_lookup_not_found:
  assumes "findDir_lookup fs path dc b ptf pid dp calls = (r, dc', b', calls')"
    and "ptf \<noteq> []"
    and "last calls' = FindLeafCall p l (i, False, None)"
  shows "r = Inl (CouldntFindDirectory path) \<and> (length calls' = Suc (length calls) \<longrightarrow> dc' = dc)"
  using assms
proof (induction ptf arbitrary: dc b pid dp calls)
  case Nil
  then show ?case by simp
next
  case (Cons part ptf)
  obtain j found err b1 where fl: "FindLeaf fs b pid part = ((j, found, err), b1)"
    by (metis prod_cases3 surj_pair)
  let ?c = "FindLeafCall pid part (j, found, err)"
  show ?case
  proof (cases "err = None \<and> found")
    case True
    with Cons.prems(1) fl obtain dp1 where run:
      "findDir_lookup fs path (Put dc dp1 j) b1 ptf j dp1 (calls @ [?c]) = (r, dc', b', calls')"
      by (auto simp: Let_def)
    from findDir_lookup_calls [OF run] obtain new where
      new: "calls' = (calls @ [?c]) @ new" "ptf \<noteq> [] \<longrightarrow> new \<noteq> []"
      by auto
    show ?thesis
    proof (cases "ptf = []")
      case True
      with run have "calls' = calls @ [?c]" by simp
      with Cons.prems(3) \<open>err = None \<and> found\<close> show ?thesis by simp
    next
      case False
      with new have "length calls' > Suc (length calls)" by (cases new) auto
      with Cons.IH [OF run False Cons.prems(3)] show ?thesis by simp
    qed
  next
    case False
    with Cons.prems fl show ?thesis
      by (auto simp: Let_def split: option.splits if_splits)
  qed
qed

text \<open>Neither map of the cache ever loses a key in the second loop, the cache after the
  loop is the cache before it with the finds put in, and the ID of every find is in the
  inverse map at the end.\<close>

lemma Put_dom:
  "dom (cache (Put dc k i)) = insert k (dom (cache dc))"
  "dom (invCache (Put dc k i)) = insert i (dom (invCache dc))"
  by (auto simp: Put_def)

lemma findDir_lookup_grows:
  "findDir_lookup fs path dc b ptf pid dp calls = (r, dc', b', calls') \<Longrightarrow>
   dom (cache dc) \<subseteq> dom (cache dc') \<and> dom (invCache dc) \<subseteq> dom (invCache dc')"
proof (induction ptf arbitrary: dc b pid dp calls)
  case Nil
  then show ?case by simp
next
  case (Cons part ptf)
  obtain i found err b1 where fl: "FindLeaf fs b pid part = ((i, found, err), b1)"
    by (metis prod_cases3 surj_pair)
  show ?case
  proof (cases "err = None \<and> found")
    case True
    with Cons.prems fl obtain dp1 where
      "findDir_lookup fs path (Put dc dp1 i) b1 ptf i dp1 (calls @ [FindLeafCall pid part (i, found, err)])
         = (r, dc', b', calls')"
      by (auto simp: Let_def)
    from Cons.IH [OF this] show ?thesis by (auto simp: Put_dom)
  next
    case False
    with Cons.prems fl show ?thesis
      by (auto simp: Let_def split: option.splits if_splits)
  qed
qed

lemma findDir_lookup_put_found:
  "findDir_lookup fs path dc b ptf pid dp calls = (r, dc', b', calls') \<Longrightarrow>
   dc' = put_found dc dp (drop (length calls) calls')"
proof (induction ptf arbitrary: dc b pid dp calls)
  case Nil
  then show ?case by simp
next
  case (Cons part ptf)
  obtain i found err b1 where fl: "FindLeaf fs b pid part = ((i, found, err), b1)"
    by (metis prod_cases3 surj_pair)
  let ?c = "FindLeafCall pid part (i, found, err)"
  show ?case
  proof (cases "err = None \<and> found")
    case True
    with Cons.prems fl have run:
      "findDir_lookup fs path (Put dc (Join [dp, part]) i) b1 ptf i (Join [dp, part]) (calls @ [?c])
         = (r, dc', b', calls')"
      by (auto simp: Let_def)
    from findDir_lookup_calls [OF run] obtain new where new: "calls' = (calls @ [?c]) @ new"
      by blast
    from Cons.IH [OF run] have "dc' = put_found (Put dc (Join [dp, part]) i) (Join [dp, part]) new"
      by (simp add: new)
    with True show ?thesis by (simp add: new)
  next
    case False
    with Cons.prems fl show ?thesis
      by (auto simp: Let_def split: option.splits if_splits)
  qed
qed

lemma findDir_lookup_found_ids:
  "findDir_lookup fs path dc b ptf pid dp calls = (r, dc', b', calls') \<Longrightarrow>
   FindLeafCall p l (i, True, None) \<in> set (drop (length calls) calls') \<Longrightarrow>
   i \<in> dom (invCache dc')"
proof (induction ptf arbitrary: dc b pid dp calls)
  case Nil
  then show ?case by simp
next
  case (Cons part ptf)
  obtain j found err b1 where fl: "FindLeaf fs b pid part = ((j, found, err), b1)"
    by (metis prod_cases3 surj_pair)
  let ?c = "FindLeafCall pid part (j, found, err)"
  show ?case
  proof (cases "err = None \<and> found")
    case True
    with Cons.prems(1) fl obtain dp1 where run:
      "findDir_lookup fs path (Put dc dp1 j) b1 ptf j dp1 (calls @ [?c]) = (r, dc', b', calls')"
      by (auto simp: Let_def)
    from findDir_lookup_calls [OF run] obtain new where new: "calls' = (calls @ [?c]) @ new"
      by blast
    with Cons.prems(2) have "FindLeafCall p l (i, True, None) = ?c \<or>
        FindLeafCall p l (i, True, None) \<in> set (drop (length (calls @ [?c])) calls')"
      by auto
    then show ?thesis
    proof
      assume "FindLeafCall p l (i, True, None) = ?c"
      then have "i = j" by simp
      then have "i \<in> dom (invCache (Put dc dp1 j))" by (simp add: Put_dom)
      with findDir_lookup_grows [OF run] show ?thesis by blast
    next
      assume "FindLeafCall p l (i, True, None) \<in> set (drop (length (calls @ [?c])) calls')"
      with run show ?thesis by (rule Cons.IH)
    qed
  next
    case False
    with Cons.prems fl show ?thesis
      by (auto simp: Let_def split: option.splits if_splits)
  qed
qed

text \<open>
  Claim C2, amended. After \<open>FindRoot\<close>, when the last backend call of \<open>FindDir\<close> is a
  \<^verbatim>\<open>FindLeaf\<close> that reports the leaf not found, \<open>FindDir\<close> returns
  \<^verbatim>\<open>couldn't find directory\<close> for the path it was given, and no entry is removed: every path
  and every ID that was cached before is cached after. The cache after the call is the
  cache before it with one \<open>Put\<close> for each segment found earlier in the call, in order;
  nothing is rolled back, so the ID of each of them is in the inverse map. When the call
  that reports not found is the first backend call, the cache is exactly what it was.
\<close>

theorem FindDir_not_found:
  assumes "foundRoot dc"
    and "FindDir fs dc b path = (r, dc', b', calls)"
    and "calls \<noteq> []"
    and "last calls = FindLeafCall p l (i, False, None)"
  shows "r = Inl (CouldntFindDirectory path) \<and>
         dom (cache dc) \<subseteq> dom (cache dc') \<and> dom (invCache dc) \<subseteq> dom (invCache dc') \<and>
         dc' = put_found dc (snd (snd (findDir_scan dc (Split path) [] (rootID dc) []))) calls \<and>
         (\<forall>p' l' i'. FindLeafCall p' l' (i', True, None) \<in> set calls \<longrightarrow> i' \<in> dom (invCache dc')) \<and>
         (length calls = 1 \<longrightarrow> dc' = dc)"
proof -
  from assms(1-3) have pne: "path \<noteq> []"
    by (auto simp: FindDir_def)
  obtain ptf pid dp where sc: "findDir_scan dc (Split path) [] (rootID dc) [] = (ptf, pid, dp)"
    by (metis prod_cases3)
  with assms(1,2) pne have run: "findDir_lookup fs path dc b ptf pid dp [] = (r, dc', b', calls)"
    by (simp add: FindDir_def)
  from run assms(3) have "ptf \<noteq> []" by auto
  from findDir_lookup_not_found [OF run this assms(4)]
  have "r = Inl (CouldntFindDirectory path)" "length calls = 1 \<longrightarrow> dc' = dc" by simp_all
  moreover from findDir_lookup_grows [OF run]
  have "dom (cache dc) \<subseteq> dom (cache dc')" "dom (invCache dc) \<subseteq> dom (invCache dc')" by simp_all
  moreover from findDir_lookup_put_found [OF run] sc
  have "dc' = put_found dc (snd (snd (findDir_scan dc (Split path) [] (rootID dc) []))) calls" by simp
  moreover have "\<forall>p' l' i'. FindLeafCall p' l' (i', True, None) \<in> set calls \<longrightarrow> i' \<in> dom (invCache dc')"
    using findDir_lookup_found_ids [OF run] by simp
  ultimately show ?thesis by blast
qed

theorem FindDir_not_found_witness:
  "foundRoot (fst (snd (FindRoot (one_dir ''r'' ''a'' ''1'') (New [] ''r'') ()))) \<and>
   FindDir (one_dir ''r'' ''a'' ''1'') (fst (snd (FindRoot (one_dir ''r'' ''a'' ''1'') (New [] ''r'') ()))) () ''b'' =
     (Inl (CouldntFindDirectory ''b''),
      fst (snd (FindRoot (one_dir ''r'' ''a'' ''1'') (New [] ''r'') ())), (),
      [FindLeafCall ''r'' ''b'' ([], False, None)]) \<and>
   (\<exists>dc'. FindDir (one_dir ''r'' ''a'' ''1'')
        (fst (snd (FindRoot (one_dir ''r'' ''a'' ''1'') (New [] ''r'') ()))) () ''a/b'' =
        (Inl (CouldntFindDirectory ''a/b''), dc', (),
         [FindLeafCall ''r'' ''a'' (''1'', True, None), FindLeafCall ''1'' ''b'' ([], False, None)]) \<and>
      dc' = Put (fst (snd (FindRoot (one_dir ''r'' ''a'' ''1'') (New [] ''r'') ()))) ''a/b/a'' ''1'' \<and>
      ''1'' \<in> dom (invCache dc'))"
proof -
  let ?fs = "one_dir ''r'' ''a'' ''1''"
  let ?dc = "fst (snd (FindRoot ?fs (New [] ''r'') ()))"
  have dc: "?dc = (New [] ''r'')\<lparr> foundRoot := True \<rparr>"
    by (simp add: FindRoot_empty_root)
  have h1: "foundRoot ?dc" by (simp add: dc)
  obtain r dc' b' where run:
    "FindDir ?fs ?dc () ''b'' = (r, dc', b', [FindLeafCall ''r'' ''b'' ([], False, None)])"
    by (simp add: resolver_defs)
  from FindDir_not_found [OF h1 run] have one: "r = Inl (CouldntFindDirectory ''b'')" "dc' = ?dc"
    by simp_all
  obtain r2 dc2 b2 where run2:
    "FindDir ?fs ?dc () ''a/b'' = (r2, dc2, b2,
       [FindLeafCall ''r'' ''a'' (''1'', True, None), FindLeafCall ''1'' ''b'' ([], False, None)])"
    by (simp add: resolver_defs)
  have scan: "snd (snd (findDir_scan ?dc (Split ''a/b'') [] (rootID ?dc) [])) = ''a/b''"
    by (simp add: resolver_defs)
  have h3: "[FindLeafCall ''r'' ''a'' (''1'', True, None :: unit option),
      FindLeafCall ''1'' ''b'' ([], False, None)] \<noteq> []"
    by simp
  have h4: "last [FindLeafCall ''r'' ''a'' (''1'', True, None :: unit option),
      FindLeafCall ''1'' ''b'' ([], False, None)] = FindLeafCall ''1'' ''b'' ([], False, None)"
    by simp
  note t = FindDir_not_found [OF h1 run2 h3 h4, unfolded scan]
  from t have two: "r2 = Inl (CouldntFindDirectory ''a/b'')" "dc2 = Put ?dc ''a/b/a'' ''1''"
    by (simp_all add: Clean_def Separator_def Let_def)
  from t have three: "''1'' \<in> dom (invCache dc2)"
    by auto
  from run one run2 two three h1 show ?thesis by simp
qed

text \<open>
  The claim as stated fails when an earlier part was found: for \<^verbatim>\<open>a/b\<close>, with \<^verbatim>\<open>a\<close>
  found and \<^verbatim>\<open>b\<close> not, \<open>FindDir\<close> returns the error and both maps have an entry more
  than before.
\<close>

theorem FindDir_not_found_after_found_changes_cache:
  "fst (FindDir (one_dir ''r'' ''a'' ''1'')
          (fst (snd (FindRoot (one_dir ''r'' ''a'' ''1'') (New [] ''r'') ()))) () ''a/b'') =
     Inl (CouldntFindDirectory ''a/b'') \<and>
   Get (fst (snd (FindRoot (one_dir ''r'' ''a'' ''1'') (New [] ''r'') ()))) ''a/b/a'' = ([], False) \<and>
   Get (fst (snd (FindDir (one_dir ''r'' ''a'' ''1'')
          (fst (snd (FindRoot (one_dir ''r'' ''a'' ''1'') (New [] ''r'') ()))) () ''a/b''))) ''a/b/a'' =
     (''1'', True) \<and>
   GetInv (fst (snd (FindRoot (one_dir ''r'' ''a'' ''1'') (New [] ''r'') ()))) ''1'' = ([], False) \<and>
   GetInv (fst (snd (FindDir (one_dir ''r'' ''a'' ''1'')
          (fst (snd (FindRoot (one_dir ''r'' ''a'' ''1'') (New [] ''r'') ()))) () ''a/b''))) ''1'' =
     (''a/b/a'', True)"
  by (simp add: resolver_defs GetInv_def)

text \<open>
  Claim C6, amended. For every directory path \<open>p\<close> (each part a name) that is not in
  the forward cache, after \<open>FindDir\<close> of \<open>p\<close>, whatever it returned, \<open>Get p\<close> still gives
  \<^verbatim>\<open>ok = false\<close>, and a further \<open>FindDir\<close> of \<open>p\<close>, on any backend, starts with a
  \<^verbatim>\<open>FindLeaf\<close> call again.
\<close>

theorem FindDir_result_not_cached:
  assumes "dir_path p" "foundRoot dc" "Get dc p = ([], False)"
    and "FindDir fs dc b p = (r, dc', b', calls)"
  shows "Get dc' p = ([], False) \<and>
         (\<exists>pid leaf a rest. snd (snd (snd (FindDir fs2 dc' b2 p))) = FindLeafCall pid leaf a # rest)"
proof -
  let ?xs = "Split p"
  have g: "good ?xs" using assms(1) by (rule good_Split)
  have p: "strings_Join ?xs = p" by (rule strings_Join_Split)
  from assms(1) have pne: "p \<noteq> []"
    by (auto simp: dir_path_def proper_name_def)
  from assms(3) have none: "cache dc p = None"
    by (simp add: Get_def split: option.splits)
  obtain ptf pid dp where sc: "findDir_scan dc ?xs [] (rootID dc) [] = (ptf, pid, dp)"
    by (metis prod_cases3)
  from findDir_scan_good [of "[]" ?xs dc "[]" "rootID dc" ptf pid dp] g sc p none
  have dp: "dp = p" and sub: "set ptf \<subseteq> set ?xs" and ne: "ptf \<noteq> []"
    by auto
  from sub g have gp: "good ptf" by (auto simp: good_def)
  from assms(2,4) pne sc dp
  have run: "findDir_lookup fs p dc b ptf pid (strings_Join ?xs) [] = (r, dc', b', calls)"
    by (simp add: FindDir_def p)
  from findDir_lookup_keeps_short_keys [OF g gp g _ _ run] p
  have keep: "cache dc' p = cache dc p" and fr: "foundRoot dc' = foundRoot dc"
    by auto
  from keep none have none': "cache dc' p = None" by simp
  then have get: "Get dc' p = ([], False)" by (simp add: Get_def)
  obtain r2 dc2 b3 calls2 where again: "FindDir fs2 dc' b2 p = (r2, dc2, b3, calls2)"
    by (metis prod_cases4)
  obtain ptf2 pid2 dp2 where sc2: "findDir_scan dc' ?xs [] (rootID dc') [] = (ptf2, pid2, dp2)"
    by (metis prod_cases3)
  from findDir_scan_good [of "[]" ?xs dc' "[]" "rootID dc'" ptf2 pid2 dp2] g sc2 p none'
  have ne2: "ptf2 \<noteq> []" by auto
  from again fr assms(2) pne sc2
  have "findDir_lookup fs2 p dc' b2 ptf2 pid2 dp2 [] = (r2, dc2, b3, calls2)"
    by (simp add: FindDir_def)
  from findDir_lookup_calls [OF this] ne2
  have "\<exists>pid leaf a rest. calls2 = FindLeafCall pid leaf a # rest" by auto
  with again get show ?thesis by simp
qed

theorem FindDir_result_not_cached_witness:
  "dir_path ''x'' \<and>
   Get (fst (snd (FindRoot (one_dir ''r'' ''x'' ''1'') (New [] ''r'') ()))) ''x'' = ([], False) \<and>
   fst (FindDir (one_dir ''r'' ''x'' ''1'')
          (fst (snd (FindRoot (one_dir ''r'' ''x'' ''1'') (New [] ''r'') ()))) () ''x'') = Inr ''1'' \<and>
   Get (fst (snd (FindDir (one_dir ''r'' ''x'' ''1'')
          (fst (snd (FindRoot (one_dir ''r'' ''x'' ''1'') (New [] ''r'') ()))) () ''x''))) ''x'' =
     ([], False) \<and>
   (\<exists>pid leaf a rest.
      snd (snd (snd (FindDir (one_dir ''r'' ''x'' ''1'')
        (fst (snd (FindDir (one_dir ''r'' ''x'' ''1'')
          (fst (snd (FindRoot (one_dir ''r'' ''x'' ''1'') (New [] ''r'') ()))) () ''x''))) () ''x''))) =
      FindLeafCall pid leaf a # rest)"
proof -
  let ?fs = "one_dir ''r'' ''x'' ''1''"
  let ?dc = "fst (snd (FindRoot ?fs (New [] ''r'') ()))"
  have dc: "?dc = (New [] ''r'')\<lparr> foundRoot := True \<rparr>"
    by (simp add: FindRoot_empty_root)
  have h1: "dir_path ''x''"
    by (simp add: dir_path_def proper_name_def Separator_def)
  have h2: "foundRoot ?dc" by (simp add: dc)
  have h3: "Get ?dc ''x'' = ([], False)" by (simp add: resolver_defs)
  have h4: "FindDir ?fs ?dc () ''x'' =
     (fst (FindDir ?fs ?dc () ''x''), fst (snd (FindDir ?fs ?dc () ''x'')),
      fst (snd (snd (FindDir ?fs ?dc () ''x''))), snd (snd (snd (FindDir ?fs ?dc () ''x''))))"
    by (simp add: prod_eq_iff)
  have h5: "fst (FindDir ?fs ?dc () ''x'') = Inr ''1''"
    by (simp add: resolver_defs)
  from FindDir_result_not_cached [OF h1 h2 h3 h4, of ?fs "()"] h1 h3 h5 show ?thesis
    by simp
qed

text \<open>
  The claim as stated fails for the path \<^verbatim>\<open>.\<close>, which \<^verbatim>\<open>filepath.Join\<close> joins with
  itself to \<^verbatim>\<open>.\<close> again: the result is stored under the very key \<^verbatim>\<open>.\<close>.
\<close>

theorem FindDir_dot_is_cached:
  "Get (fst (snd (FindRoot (one_dir ''r'' ''.'' ''1'') (New [] ''r'') ()))) ''.'' = ([], False) \<and>
   fst (FindDir (one_dir ''r'' ''.'' ''1'')
          (fst (snd (FindRoot (one_dir ''r'' ''.'' ''1'') (New [] ''r'') ()))) () ''.'') = Inr ''1'' \<and>
   Get (fst (snd (FindDir (one_dir ''r'' ''.'' ''1'')
          (fst (snd (FindRoot (one_dir ''r'' ''.'' ''1'') (New [] ''r'') ()))) () ''.''))) ''.'' =
     (''1'', True)"
  by (simp add: resolver_defs)

section \<open>Properties of the pacer\<close>

lemma counted_apply: "counted f (s, log) = (fst (f s), (snd (f s), log @ [fst (f s)]))"
  by (simp add: counted_def split: prod.splits)

lemma DefaultInvoker_apply:
  "DefaultInvoker try tries paced s =
     ((if try \<ge> tries then False else fst (fst (paced s)), snd (fst (paced s))), snd (paced s))"
  by (simp add: DefaultInvoker_def split: prod.splits)

lemma Call_loop_step:
  assumes "0 < pacer p" "0 < connTokens p" "try \<le> retries p"
  shows "Call_loop p f try cr err s =
     (let r = invoker p cr (retries p) f s in
      if \<not> fst (fst r) \<or> try \<ge> retries p then Some (snd (fst r), done_state p, snd r)
      else Call_loop (retry_state p (snd (fst r))) f (try + 1) (cr + 1) (snd (fst r)) (snd r))"
  using assms
  apply (subst Call_loop.simps)
  apply (simp add: Let_def case_prod_beta retry_state_def done_state_def)
  done

lemma retry_state_fields [simp]:
  "invoker (retry_state p e) = invoker p" "retries (retry_state p e) = retries p"
  "pacer (retry_state p e) = pacer p" "connTokens (retry_state p e) = connTokens p"
  by (simp_all add: retry_state_def)

lemma done_state_fields [simp]:
  "pacer (done_state p) = pacer p" "connTokens (done_state p) = connTokens p"
  "ConsecutiveRetries (state (done_state p)) = 0" "LastError (state (done_state p)) = None"
  by (simp_all add: done_state_def)

lemma Call_loop_always_again:
  assumes "invoker p = DefaultInvoker" "0 < pacer p" "0 < connTokens p"
    and "\<forall>s. fst (fst (f s))"
    and "0 \<le> k" "k \<le> retries p" "n = nat (retries p - k)"
  shows "\<exists>p' s' more. Call_loop p (counted f) k k err (s, log) =
            Some (snd (last more), p', (s', log @ more)) \<and> length more = Suc n \<and>
            pacer p' = pacer p \<and> connTokens p' = connTokens p"
  using assms
proof (induction n arbitrary: p k err s log)
  case 0
  then have "k = retries p" by simp
  with 0 show ?case
    by (simp add: Call_loop_step DefaultInvoker_apply counted_apply)
next
  case (Suc n)
  then have lt: "k < retries p" by simp
  let ?r = "fst (f s)"
  let ?p = "retry_state p (snd ?r)"
  have step: "Call_loop p (counted f) k k err (s, log) =
              Call_loop ?p (counted f) (k + 1) (k + 1) (snd ?r) (snd (f s), log @ [?r])"
    using Suc.prems lt
    by (simp add: Call_loop_step DefaultInvoker_apply counted_apply)
  have "\<exists>p' s' more. Call_loop ?p (counted f) (k + 1) (k + 1) (snd ?r) (snd (f s), log @ [?r]) =
            Some (snd (last more), p', (s', (log @ [?r]) @ more)) \<and> length more = Suc n \<and>
            pacer p' = pacer ?p \<and> connTokens p' = connTokens ?p"
    using Suc.prems lt by (intro Suc.IH) auto
  then obtain p' s' more where
    "Call_loop ?p (counted f) (k + 1) (k + 1) (snd ?r) (snd (f s), log @ [?r]) =
       Some (snd (last more), p', (s', (log @ [?r]) @ more))" "length more = Suc n"
    "pacer p' = pacer p" "connTokens p' = connTokens p"
    by auto
  with step show ?case
    by (intro exI [of _ p'] exI [of _ s'] exI [of _ "?r # more"]) auto
qed

text \<open>
  Claim C3. For a pacer with the default invoker, a retry budget \<open>retries\<close> that is not
  negative, its pacer token in place and a connection token free: on an operation that
  asks for another attempt every time, \<open>Call\<close> returns after exactly \<open>retries + 1\<close>
  invocations, with the error of the last one; and on an operation whose first attempt
  returns \<^verbatim>\<open>(false, nil)\<close>, \<open>Call\<close> returns \<^verbatim>\<open>nil\<close> after that one invocation.
\<close>

theorem Call_retry_budget:
  assumes "invoker p = DefaultInvoker" "0 \<le> retries p" "0 < pacer p" "0 < connTokens p"
  shows "((\<forall>s. fst (fst (f s))) \<longrightarrow>
            (\<exists>p' s' log. Call p (counted f) (s0, []) = Some (snd (last log), p', (s', log)) \<and>
               int (length log) = retries p + 1)) \<and>
         (f s0 = ((False, None), s1) \<longrightarrow>
            Call p (counted f) (s0, []) = Some (None, done_state p, (s1, [(False, None)])))"
proof (intro conjI impI)
  assume again: "\<forall>s. fst (fst (f s))"
  from Call_loop_always_again [OF assms(1,3,4) again, where k = 0 and n = "nat (retries p)"
      and err = None and s = s0 and log = "[]"] assms(2)
  obtain p' s' more where
    "Call_loop p (counted f) 0 0 None (s0, []) = Some (snd (last more), p', (s', more))"
    "length more = Suc (nat (retries p))"
    by auto
  with assms(2) show "\<exists>p' s' log. Call p (counted f) (s0, []) = Some (snd (last log), p', (s', log)) \<and>
      int (length log) = retries p + 1"
    by (intro exI [of _ p'] exI [of _ s'] exI [of _ more]) (simp add: Call_def)
next
  assume "f s0 = ((False, None), s1)"
  with assms show "Call p (counted f) (s0, []) = Some (None, done_state p, (s1, [(False, None)]))"
    by (simp add: Call_def Call_loop_step DefaultInvoker_apply counted_apply)
qed

theorem Call_retry_budget_witness:
  "(\<exists>p. pacer_New [RetriesOption 2] = Some p \<and> 
        invoker p = DefaultInvoker \<and> 0 \<le> retries p \<and> 0 < pacer p \<and> 0 < connTokens p \<and>
       (\<exists>p' s' log. Call p (counted always_again) (0, []) = Some (snd (last log), p', (s', log)) \<and>
          int (length log) = 3) \<and>
       Call p (counted succeeds) (0, []) = Some (None, done_state p, (1, [(False, None)])))"
proof -
  obtain p :: "(nat, nat \<times> (bool \<times> nat option) list) Pacer" where p: "pacer_New [RetriesOption 2] = Some p"
    by (simp add: pacer_New_def RetriesOption_def)
  then have h: "invoker p = DefaultInvoker" "0 \<le> retries p" "0 < pacer p" "0 < connTokens p" 
    and r: "retries p = 2"
    by (auto simp: pacer_New_def RetriesOption_def)
  from Call_retry_budget [OF h, of always_again 0 0] Call_retry_budget [OF h, of succeeds 0 1] p h r
  show ?thesis by (simp add: always_again_def succeeds_def)
qed

text \<open>
  Claim C5. Read as signed numbers, the default calculator returns 0 when
  \<open>ConsecutiveRetries\<close> is 0 and \<open>minSleep\<close> when it is 1; otherwise it takes the
  previous \<open>SleepTime\<close> shifted left by the decay constant (a multiplication by a power
  of two in 64 bits), raises it to \<open>minSleep\<close> if it is smaller, and then lowers it to
  \<open>maxSleep\<close> if it is larger, the last only when \<open>maxSleep\<close> is positive.
\<close>

theorem Calculate_backoff:
  "sint (Calculate c st) =
     (if ConsecutiveRetries st = 0 then 0
      else if ConsecutiveRetries st = 1 then sint (minSleep c)
      else
        (let shifted = sint (push_bit (unat (decayConstant c)) (SleepTime st));
             raised = max shifted (sint (minSleep c))
         in if 0 < sint (maxSleep c) then min raised (sint (maxSleep c)) else raised)) \<and>
   push_bit (unat (decayConstant c)) (SleepTime st) = SleepTime st * 2 ^ unat (decayConstant c)"
  by (simp add: Calculate_def Let_def word_sless_alt max_def min_def push_bit_eq_mult)

section \<open>Properties of the pacer that takes a context\<close>

lemma counted_fn_apply: "counted_fn fn (s, log) = (fst (fn s), (snd (fn s), log @ [fst (fn s)]))"
  by (simp add: counted_fn_def split: prod.splits)

lemma fs_Call_loop_done_before_token:
  "try \<le> fs_retries p \<Longrightarrow> done_before_token ctx try \<Longrightarrow>
   fs_Call_loop p ctx fn try err s = (Some (Err ctx), s)"
  by (subst fs_Call_loop.simps) simp

lemma fs_Call_loop_done_before_timer:
  "try < fs_retries p \<Longrightarrow> \<not> done_before_token ctx try \<Longrightarrow> fst (fn s) \<noteq> None \<Longrightarrow>
   \<forall>d. done_before_timer ctx try d \<Longrightarrow>
   fs_Call_loop p ctx fn try err s = (Some (Err ctx), snd (fn s))"
  by (subst fs_Call_loop.simps) (simp add: case_prod_beta)

lemma fs_Call_loop_next_round:
  "try < fs_retries p \<Longrightarrow> \<not> done_before_token ctx try \<Longrightarrow> fst (fn s) \<noteq> None \<Longrightarrow>
   \<forall>d. \<not> done_before_timer ctx try d \<Longrightarrow>
   fs_Call_loop p ctx fn try err s = fs_Call_loop p ctx fn (try + 1) (fst (fn s)) (snd (fn s))"
  by (subst fs_Call_loop.simps) (auto simp: case_prod_beta)

lemma fs_Call_loop_reaches:
  assumes "0 \<le> j" "j \<le> k" "k \<le> fs_retries p"
    and "\<forall>i. j \<le> i \<and> i < k \<longrightarrow> \<not> done_before_token ctx i \<and> (\<forall>d. \<not> done_before_timer ctx i d)"
    and "\<forall>s. fst (fn s) \<noteq> None"
    and "n = nat (k - j)"
  shows "\<exists>e s' more. fs_Call_loop p ctx (counted_fn fn) j err (s, log) =
           fs_Call_loop p ctx (counted_fn fn) k e (s', log @ more) \<and> length more = n"
  using assms
proof (induction n arbitrary: j err s log)
  case 0
  then have "j = k" by simp
  then show ?case by (intro exI [of _ err] exI [of _ s] exI [of _ "[]"]) simp
next
  case (Suc n)
  then have lt: "j < k" by simp
  let ?e = "fst (fn s)"
  have step: "fs_Call_loop p ctx (counted_fn fn) j err (s, log) =
        fs_Call_loop p ctx (counted_fn fn) (j + 1) ?e (snd (fn s), log @ [?e])"
    using Suc.prems lt
    by (subst fs_Call_loop_next_round) (simp_all add: counted_fn_apply)
  have "\<exists>e s' more. fs_Call_loop p ctx (counted_fn fn) (j + 1) ?e (snd (fn s), log @ [?e]) =
           fs_Call_loop p ctx (counted_fn fn) k e (s', (log @ [?e]) @ more) \<and> length more = n"
    using Suc.prems lt by (intro Suc.IH) auto
  then obtain e s' more where
    "fs_Call_loop p ctx (counted_fn fn) (j + 1) ?e (snd (fn s), log @ [?e]) =
       fs_Call_loop p ctx (counted_fn fn) k e (s', (log @ [?e]) @ more)" "length more = n"
    by blast
  with step show ?case
    by (intro exI [of _ e] exI [of _ s'] exI [of _ "?e # more"]) simp
qed

text \<open>
  Claim C9. Let the function fail every time, and let no wait before round \<open>k\<close> end by
  \<^verbatim>\<open>ctx.Done()\<close>, so that \<open>Call\<close> comes to round \<open>k\<close>. If the context is done while round
  \<open>k\<close> waits for its connection token, \<open>Call\<close> returns \<^verbatim>\<open>ctx.Err()\<close> and the function
  has been invoked \<open>k\<close> times, in the rounds before and not in this one. If the context is
  done while round \<open>k\<close> sleeps before the next attempt, \<open>Call\<close> returns \<^verbatim>\<open>ctx.Err()\<close>
  after \<open>k + 1\<close> invocations: no attempt follows, whatever is left of the retry budget.
\<close>

theorem fs_Call_context_done:
  assumes "0 \<le> k" "k \<le> fs_retries p"
    and "\<forall>i. 0 \<le> i \<and> i < k \<longrightarrow> \<not> done_before_token ctx i \<and> (\<forall>d. \<not> done_before_timer ctx i d)"
    and "\<forall>s. fst (fn s) \<noteq> None"
  shows "(done_before_token ctx k \<longrightarrow>
            (\<exists>s' log. fs_Call p ctx (counted_fn fn) (s0, []) = (Some (Err ctx), (s', log)) \<and>
               int (length log) = k)) \<and>
         (k < fs_retries p \<and> \<not> done_before_token ctx k \<and> (\<forall>d. done_before_timer ctx k d) \<longrightarrow>
            (\<exists>s' log. fs_Call p ctx (counted_fn fn) (s0, []) = (Some (Err ctx), (s', log)) \<and>
               int (length log) = k + 1))"
proof -
  from fs_Call_loop_reaches [OF _ assms(1,2) assms(3,4), where n = "nat k" and err = None
      and s = s0 and log = "[]"]
  obtain e s' more where reach:
    "fs_Call p ctx (counted_fn fn) (s0, []) = fs_Call_loop p ctx (counted_fn fn) k e (s', more)"
    and len: "length more = nat k"
    by (auto simp: fs_Call_def)
  show ?thesis
  proof (intro conjI impI)
    assume "done_before_token ctx k"
    with reach assms(2) have "fs_Call p ctx (counted_fn fn) (s0, []) = (Some (Err ctx), (s', more))"
      by (simp add: fs_Call_loop_done_before_token)
    with len assms(1) show "\<exists>s' log. fs_Call p ctx (counted_fn fn) (s0, []) = (Some (Err ctx), (s', log)) \<and>
               int (length log) = k"
      by auto
  next
    assume a: "k < fs_retries p \<and> \<not> done_before_token ctx k \<and> (\<forall>d. done_before_timer ctx k d)"
    with assms(4) have "fs_Call_loop p ctx (counted_fn fn) k e (s', more) =
        (Some (Err ctx), snd (counted_fn fn (s', more)))"
      by (intro fs_Call_loop_done_before_timer) (simp_all add: counted_fn_apply)
    with reach have "fs_Call p ctx (counted_fn fn) (s0, []) =
        (Some (Err ctx), (snd (fn s'), more @ [fst (fn s')]))"
      by (simp add: counted_fn_apply)
    with len assms(1) show "\<exists>s' log. fs_Call p ctx (counted_fn fn) (s0, []) = (Some (Err ctx), (s', log)) \<and>
               int (length log) = k + 1"
      by auto
  qed
qed


theorem fs_Call_context_done_witness:
  "fs_retries (NewPacer (\<lambda>st. 5) :: string fs_Pacer) = 3 \<and>
   done_before_token (cancelled_at_token 0) 0 \<and>
   (\<exists>s' log. fs_Call (NewPacer (\<lambda>st. 5)) (cancelled_at_token 0) (counted_fn always_fails) (0, []) =
       (Some ''context canceled'', (s', log)) \<and> int (length log) = 0) \<and>
   (\<exists>s' log. fs_Call (NewPacer (\<lambda>st. 5)) (cancelled_at_token 2) (counted_fn always_fails) (0, []) =
       (Some ''context canceled'', (s', log)) \<and> int (length log) = 2) \<and>
   (\<exists>s' log. fs_Call (NewPacer (\<lambda>st. 5)) (cancelled_at_timer 1) (counted_fn always_fails) (0, []) =
       (Some ''context canceled'', (s', log)) \<and> int (length log) = 2)"
  using fs_Call_context_done [of 0 "NewPacer (\<lambda>st. 5)" "cancelled_at_token 0" always_fails 0]
    fs_Call_context_done [of 2 "NewPacer (\<lambda>st. 5)" "cancelled_at_token 2" always_fails 0]
    fs_Call_context_done [of 1 "NewPacer (\<lambda>st. 5)" "cancelled_at_timer 1" always_fails 0]
  by (simp add: NewPacer_def cancelled_at_token_def cancelled_at_timer_def always_fails_def)

section \<open>Properties of concurrent calls\<close>

lemma holds_conn_mu: "holds_conn p \<Longrightarrow> holds_mu p"
  by (cases p) auto

lemma inv_idle: "call_inv K (idle K)"
  by (simp add: call_inv_def idle_def)

lemma mu_exclusive:
  assumes "\<forall>h. holds_mu (at c h) \<longrightarrow> mu c = Some h"
  shows "holds_mu (at c g) \<Longrightarrow> \<forall>h. h \<noteq> g \<longrightarrow> \<not> holds_mu (at c h)"
    and "mu c = None \<Longrightarrow> \<forall>h. \<not> holds_mu (at c h)"
  using assms by (metis option.inject, metis option.distinct(1))

lemma inv_step_mu:
  assumes "call_inv K c" "step K r g again c = Some c'"
  shows "\<forall>h. holds_mu (at c' h) \<longrightarrow> mu c' = Some h"
proof -
  from assms(1) have m: "\<forall>h. holds_mu (at c h) \<longrightarrow> mu c = Some h"
    by (simp add: call_inv_def)
  note ex = mu_exclusive(1) [OF m, of g] mu_exclusive(2) [OF m]
  show ?thesis
  proof (cases "at c g")
    case NotCalling
    with assms(2) m show ?thesis by (auto simp: step_def split: if_splits)
  next
    case LoopHead
    with assms(2) m ex(2) show ?thesis by (auto simp: step_def split: if_splits)
  next
    case RecvPacer
    with assms(2) m show ?thesis by (auto simp: step_def split: if_splits)
  next
    case RecvConn
    with assms(2) m show ?thesis by (auto simp: step_def split: if_splits)
  next
    case Invoking
    with assms(2) m show ?thesis by (auto simp: step_def split: if_splits)
  next
    case (SendConn a)
    with assms(2) m show ?thesis by (auto simp: step_def split: if_splits)
  next
    case (Decide a)
    with assms(2) m show ?thesis by (auto simp: step_def split: if_splits)
  next
    case (UnlockSleep a)
    with assms(2) m ex(1) show ?thesis by (auto simp: step_def split: if_splits)
  next
    case SendPacerReturn
    with assms(2) m show ?thesis by (auto simp: step_def split: if_splits)
  next
    case UnlockReturn
    with assms(2) m ex(1) show ?thesis by (auto simp: step_def split: if_splits)
  next
    case (Sleeping a)
    with assms(2) m show ?thesis by (auto simp: step_def split: if_splits)
  next
    case (Relock a)
    with assms(2) m ex(2) show ?thesis by (auto simp: step_def split: if_splits)
  next
    case (SendPacer a)
    with assms(2) m show ?thesis by (auto simp: step_def split: if_splits)
  next
    case (Unlock a)
    with assms(2) m ex(1) show ?thesis by (auto simp: step_def split: if_splits)
  qed
qed

lemma conn_frame:
  assumes "\<forall>h. holds_conn (at c h) \<longrightarrow> connTokens_chan c + 1 = K"
    and "(\<forall>h. \<not> holds_conn (at c h)) \<longrightarrow> connTokens_chan c = K"
    and "\<forall>h. holds_conn (at c' h) = holds_conn (at c h)"
    and "connTokens_chan c' = connTokens_chan c"
  shows "(\<forall>h. holds_conn (at c' h) \<longrightarrow> connTokens_chan c' + 1 = K) \<and>
     ((\<forall>h. \<not> holds_conn (at c' h)) \<longrightarrow> connTokens_chan c' = K)"
  using assms by simp

lemma inv_step_conn:
  assumes "call_inv K c" "step K r g again c = Some c'"
  shows "(\<forall>h. holds_conn (at c' h) \<longrightarrow> connTokens_chan c' + 1 = K) \<and>
     ((\<forall>h. \<not> holds_conn (at c' h)) \<longrightarrow> connTokens_chan c' = K)"
proof -
  from assms(1) have m: "\<forall>h. holds_mu (at c h) \<longrightarrow> mu c = Some h"
    and t1: "\<forall>h. holds_conn (at c h) \<longrightarrow> connTokens_chan c + 1 = K"
    and t2: "(\<forall>h. \<not> holds_conn (at c h)) \<longrightarrow> connTokens_chan c = K"
    by (simp_all add: call_inv_def)
  have only: "holds_mu (at c g) \<Longrightarrow> \<forall>h. h \<noteq> g \<longrightarrow> \<not> holds_conn (at c h)"
    using mu_exclusive(1) [OF m, of g] holds_conn_mu by blast
  have frame: ?thesis
    if "\<not> holds_conn (at c g)" "at c g \<noteq> RecvConn"
  proof (rule conn_frame [OF t1 t2])
    from that assms(2) show "\<forall>h. holds_conn (at c' h) = holds_conn (at c h)"
      by (cases "at c g") (auto simp: step_def split: if_splits)
    from that assms(2) show "connTokens_chan c' = connTokens_chan c"
      by (cases "at c g") (auto simp: step_def split: if_splits)
  qed
  show ?thesis
  proof (cases "at c g")
    case RecvConn
    then have hm: "holds_mu (at c g)" and nc: "\<not> holds_conn (at c g)" by simp_all
    have none: "\<forall>h. \<not> holds_conn (at c h)"
    proof
      fix h
      show "\<not> holds_conn (at c h)"
        using only [OF hm] nc by (cases "h = g") simp_all
    qed
    with t2 have eq: "connTokens_chan c = K" by blast
    from RecvConn assms(2) have c': "c' = c\<lparr> connTokens_chan := connTokens_chan c - 1,
        at := (at c)(g := Invoking) \<rparr>" and pos: "connTokens_chan c \<noteq> 0"
      by (simp_all add: step_def split: if_splits)
    have "holds_conn (at c' g)" by (simp add: c')
    with eq pos show ?thesis by (auto simp: c')
  next
    case Invoking
    then have hc: "holds_conn (at c g)" by simp
    with t1 have eq: "connTokens_chan c + 1 = K" by blast
    from Invoking assms(2) have c': "c' = c\<lparr> at := (at c)(g := SendConn again) \<rparr>"
      by (simp add: step_def)
    have "holds_conn (at c' g)" by (simp add: c')
    with eq show ?thesis by (auto simp: c')
  next
    case (SendConn a)
    then have hc: "holds_conn (at c g)" by simp
    with t1 have eq: "connTokens_chan c + 1 = K" by blast
    from SendConn only have others: "\<forall>h. h \<noteq> g \<longrightarrow> \<not> holds_conn (at c h)" by simp
    from SendConn assms(2) have c': "c' = c\<lparr> connTokens_chan := connTokens_chan c + 1,
        at := (at c)(g := Decide a) \<rparr>"
      by (simp add: step_def split: if_splits)
    from others have "\<forall>h. \<not> holds_conn (at c' h)" by (simp add: c')
    with eq show ?thesis by (simp add: c')
  qed (intro frame; simp)+
qed

lemma inv_step: "call_inv K c \<Longrightarrow> step K r g again c = Some c' \<Longrightarrow> call_inv K c'"
  using inv_step_mu [of K c r g again c'] inv_step_conn [of K c r g again c']
  by (simp add: call_inv_def)

lemma inv_run: "call_inv K c \<Longrightarrow> run K r schedule c = Some c' \<Longrightarrow> call_inv K c'"
proof (induction schedule arbitrary: c)
  case Nil
  then show ?case by simp
next
  case (Cons x schedule)
  obtain g again where x: "x = (g, again)" by (cases x)
  with Cons.prems(2) obtain c1 where c1: "step K r g again c = Some c1"
    and rest: "run K r schedule c1 = Some c'"
    by (auto split: option.splits)
  from Cons.prems(1) c1 have "call_inv K c1" by (rule inv_step)
  from this rest show ?case by (rule Cons.IH)
qed

lemma invoking_unique:
  assumes "call_inv K c" "at c g = Invoking" "at c h = Invoking"
  shows "g = h"
proof -
  from assms(2,3) have "holds_mu (at c g)" "holds_mu (at c h)" by simp_all
  moreover from assms(1) have "\<forall>g. holds_mu (at c g) \<longrightarrow> mu c = Some g"
    by (simp add: call_inv_def)
  ultimately have "mu c = Some g" "mu c = Some h" by blast+
  then show ?thesis by simp
qed

lemma invoking_needs_slot:
  assumes "call_inv K c" "at c g = Invoking"
  shows "1 \<le> K"
proof -
  from assms(2) have "holds_conn (at c g)" by simp
  moreover from assms(1) have "\<forall>g. holds_conn (at c g) \<longrightarrow> connTokens_chan c + 1 = K"
    by (simp add: call_inv_def)
  ultimately have "connTokens_chan c + 1 = K" by blast
  then show ?thesis by simp
qed

lemma card_invoking:
  assumes "call_inv K c"
  shows "card {g. at c g = Invoking} \<le> min 1 K"
proof (cases "\<exists>g. at c g = Invoking")
  case True
  then obtain g where g: "at c g = Invoking" by blast
  with assms have "{h. at c h = Invoking} = {g}"
    using invoking_unique by fastforce
  with invoking_needs_slot [OF assms g] show ?thesis by simp
next
  case False
  then show ?thesis by simp
qed


text \<open>
  From the pacer as \<open>New\<close> makes it with \<open>K\<close> connection tokens, whatever the goroutines
  do and in whatever order, at most \<open>K\<close> of them are in their call phase at a time, and
  at most one.
\<close>

lemma at_most_K_invoking:
  "run K retries' schedule (idle K) = Some c \<Longrightarrow>
   card {g. at c g = Invoking} \<le> K \<and> card {g. at c g = Invoking} \<le> 1"
  using card_invoking [OF inv_run [OF inv_idle]] by fastforce

lemma at_most_K_invoking_example:
  "\<exists>c. run 2 10 [(0 :: nat, True), (0, True), (0, True), (0, True)] (idle 2) = Some c \<and>
       at c 0 = Invoking \<and>
       card {g. at c g = Invoking} \<le> 2 \<and> card {g. at c g = Invoking} \<le> 1"
proof -
  obtain c where c: "run 2 10 [(0 :: nat, True), (0, True), (0, True), (0, True)] (idle 2) = Some c"
    and i: "at c 0 = Invoking"
    by (simp add: step_def idle_def)
  from at_most_K_invoking [OF c] c i show ?thesis by blast
qed

text \<open>
  Claim C10. The pacer of \<open>New\<close> has 8 connection tokens, for up to 8 operations in
  their call phase at a time, and 10 retries. Yet no schedule of any number of goroutines
  brings two of them into their call phase together: a caller holds the mutex and the
  pacer token from before its call phase until after it, so calls never overlap and all
  but one of the connection tokens are never taken.
\<close>

theorem no_two_calls_overlap:
  "\<not> (\<exists>schedule c (g :: nat) h. run 8 10 schedule (idle 8) = Some c \<and> g \<noteq> h \<and>
        at c g = Invoking \<and> at c h = Invoking)"
proof
  assume "\<exists>schedule c (g :: nat) h. run 8 10 schedule (idle 8) = Some c \<and> g \<noteq> h \<and>
        at c g = Invoking \<and> at c h = Invoking"
  then obtain schedule c and g h :: nat where r: "run 8 10 schedule (idle 8) = Some c"
    and ne: "g \<noteq> h" and i: "at c g = Invoking" "at c h = Invoking"
    by blast
  from inv_idle r have "call_inv 8 c" by (rule inv_run)
  from this i have "g = h" by (rule invoking_unique)
  with ne show False by simp
qed

text \<open>A second caller cannot even start while the first is in its call phase: its lock
  blocks.\<close>

lemma second_caller_blocks:
  "run 8 10 [(0 :: nat, True), (0, True), (0, True), (0, True), (1, True), (1, True)] (idle 8) = None"
  by (simp add: step_def idle_def)

text \<open>
  And two callers can stop each other for good: caller 0 is told to try again and sleeps
  with the pacer token in hand; caller 1 locks the mutex and waits for that token; caller
  0 wakes up and waits for the mutex. Neither has a step left.
\<close>

lemma retrying_caller_and_newcomer_deadlock:
  "\<exists>c. run 8 10 [(0 :: nat, True), (0, True), (0, True), (0, True), (0, True), (0, True), (0, True),
         (0, True), (1, True), (1, True), (0, True)] (idle 8) = Some c \<and>
       at c 0 = Relock True \<and> at c 1 = RecvPacer \<and>
       step 8 10 0 a c = None \<and> step 8 10 1 a c = None"
  by (simp add: step_def idle_def)

end
